theory Spec2Isabelle
  imports Complex_Main "HOL-Library.Char_ord" "HOL-Library.List_Lexorder"
begin

section \<open>Data model\<close>

text \<open>
  The interfaces of \<^verbatim>\<open>sunriseClient\<close>. A JavaScript \<^verbatim>\<open>number\<close> that is finite is a
  rational, so \<^verbatim>\<open>number\<close> fields are of type \<^typ>\<open>rat\<close>; strings are lists of code units.
\<close>

record SunriseResult =
  sunrise :: string
  sunset :: string
  solar_noon :: string
  day_length :: rat
  civil_twilight_begin :: string
  civil_twilight_end :: string
  nautical_twilight_begin :: string
  nautical_twilight_end :: string
  astronomical_twilight_begin :: string
  astronomical_twilight_end :: string

datatype api_status = OK | INVALID_REQUEST | INVALID_DATE | UNKNOWN_ERROR

record SunriseResponse =
  results :: SunriseResult
  status :: api_status

text \<open>
  Modelled from the spec: the declaration of \<^verbatim>\<open>LatLon\<close> is imported from
  \<^verbatim>\<open>./latLon\<close>, a file that is not part of the sources; the code reads the two numeric
  fields \<^verbatim>\<open>lat\<close> and \<^verbatim>\<open>lon\<close> of it.
\<close>

record LatLon =
  lat :: rat
  lon :: rat

text \<open>What a rejected promise or a \<^verbatim>\<open>throw\<close> carries.\<close>

datatype js_error = Error string | TypeError string | SyntaxError string

text \<open>The string that \<^verbatim>\<open>"..." + resp.status\<close> appends.\<close>

fun status_string :: "api_status \<Rightarrow> string" where
  "status_string OK = ''OK''"
| "status_string INVALID_REQUEST = ''INVALID_REQUEST''"
| "status_string INVALID_DATE = ''INVALID_DATE''"
| "status_string UNKNOWN_ERROR = ''UNKNOWN_ERROR''"

section \<open>Number.prototype.toFixed\<close>

text \<open>
  The decimal digits of a natural number, without leading zeroes.
\<close>

fun digits :: "nat \<Rightarrow> string" where
  "digits n =
     (if n < 10 then [''0123456789'' ! n]
      else digits (n div 10) @ [''0123456789'' ! (n mod 10)])"

declare digits.simps [simp del]

text \<open>
  \<^verbatim>\<open>x.toFixed(f)\<close> as ECMAScript defines it for a finite \<^verbatim>\<open>x\<close> and \<^verbatim>\<open>0 <= f <= 100\<close>
  (the only call sites pass the literal 7): the sign, then the integer \<open>n\<close> nearest to
  \<open>x * 10^f\<close> (the larger one of two), padded with zeroes to \<open>f + 1\<close> digits, with a point
  before the last \<open>f\<close> digits. From \<open>10^21\<close> on the result is the host's
  \<^verbatim>\<open>Number::toString\<close>, which depends on the binary representation of the number and is
  the parameter \<open>ToString\<close>.
\<close>

definition toFixed :: "(rat \<Rightarrow> string) \<Rightarrow> nat \<Rightarrow> rat \<Rightarrow> string" where
  "toFixed ToString f x0 =
     (let s = (if x0 < 0 then ''-'' else '''');
          x = (if x0 < 0 then - x0 else x0)
      in if x \<ge> 10 ^ 21 then s @ ToString x
         else
           let n = nat \<lfloor>x * 10 ^ f + 1 / 2\<rfloor>;
               m = (if n = 0 then ''0'' else digits n);
               k = length m;
               m' = (if k \<le> f then replicate (f + 1 - k) (CHR ''0'') @ m else m);
               k' = (if k \<le> f then f + 1 else k)
           in if f \<noteq> 0 then s @ take (k' - f) m' @ ''.'' @ drop (k' - f) m'
              else s @ m)"

section \<open>The URL object\<close>

text \<open>
  A \<^verbatim>\<open>URL\<close> whose query is held by its \<^verbatim>\<open>searchParams\<close>: the part before the query, and
  the list of name-value pairs.
\<close>

record URL =
  base :: string
  searchParams :: "(string \<times> string) list"

text \<open>
  \<^verbatim>\<open>URLSearchParams.set(name, value)\<close>: the first pair of that name takes the value and the
  others of that name are removed; without such a pair, the pair is appended.
\<close>

fun params_set :: "string \<Rightarrow> string \<Rightarrow> (string \<times> string) list \<Rightarrow> (string \<times> string) list" where
  "params_set name v [] = [(name, v)]"
| "params_set name v (p # ps) =
     (if fst p = name then (name, v) # filter (\<lambda>q. fst q \<noteq> name) ps
      else p # params_set name v ps)"

definition searchParams_set :: "string \<Rightarrow> string \<Rightarrow> URL \<Rightarrow> URL" where
  "searchParams_set name v u = u\<lparr>searchParams := params_set name v (searchParams u)\<rparr>"

text \<open>
  The query string of the URL, as the \<^verbatim>\<open>application/x-www-form-urlencoded\<close> serializer
  writes it: letters, digits and \<^verbatim>\<open>* - . _\<close> stand for themselves, a space becomes
  \<^verbatim>\<open>+\<close>, every other byte is percent-encoded.
\<close>

definition unreserved :: "char \<Rightarrow> bool" where
  "unreserved c \<longleftrightarrow>
     (let n = (of_char c :: nat)
      in (48 \<le> n \<and> n \<le> 57) \<or> (65 \<le> n \<and> n \<le> 90) \<or> (97 \<le> n \<and> n \<le> 122)
         \<or> n = 42 \<or> n = 45 \<or> n = 46 \<or> n = 95)"

definition urlencode_char :: "char \<Rightarrow> string" where
  "urlencode_char c =
     (if unreserved c then [c]
      else if c = CHR '' '' then ''+''
      else [CHR ''%'', ''0123456789ABCDEF'' ! ((of_char c :: nat) div 16),
            ''0123456789ABCDEF'' ! ((of_char c :: nat) mod 16)])"

definition urlencode :: "string \<Rightarrow> string" where
  "urlencode s = concat (map urlencode_char s)"

fun serialize :: "(string \<times> string) list \<Rightarrow> string" where
  "serialize [] = ''''"
| "serialize [p] = urlencode (fst p) @ ''='' @ urlencode (snd p)"
| "serialize (p # ps) = urlencode (fst p) @ ''='' @ urlencode (snd p) @ ''&'' @ serialize ps"

definition search :: "URL \<Rightarrow> string" where
  "search u = (if searchParams u = [] then '''' else ''?'' @ serialize (searchParams u))"

definition href :: "URL \<Rightarrow> string" where
  "href u = base u @ search u"

section \<open>sunriseClient.get\<close>

text \<open>
  The state that \<^verbatim>\<open>get\<close> reads and writes: the one module-level \<^verbatim>\<open>baseUrl\<close> object, the
  requests handed to \<^verbatim>\<open>https.get\<close> so far (each with the value the URL had at that
  moment), and the delays passed to \<^verbatim>\<open>sleep\<close> so far.
\<close>

record world =
  baseUrl :: URL
  requested :: "URL list"
  slept :: "nat list"

definition initial_baseUrl :: URL where
  "initial_baseUrl = \<lparr>base = ''https://api.sunrise-sunset.org/json'', searchParams = []\<rparr>"

text \<open>The state when the module has been loaded and nothing has been requested yet.\<close>

definition fresh_world :: world where
  "fresh_world = \<lparr>baseUrl = initial_baseUrl, requested = [], slept = []\<rparr>"

text \<open>
  The \<^verbatim>\<open>while (true)\<close> loop of \<^verbatim>\<open>get\<close>. The variable \<^verbatim>\<open>apiUrl\<close> is a reference to the
  module-level object, so every attempt reads \<open>baseUrl\<close> of the current state. The remote
  service is \<open>api\<close>: its answer to the request number \<open>n\<close> (counted from 0 over the life
  of the process), either the error that rejects \<^verbatim>\<open>httpGetJson\<close> or the decoded body.
\<close>

function get_loop ::
  "(rat \<Rightarrow> string) \<Rightarrow> (nat \<Rightarrow> js_error + SunriseResponse) \<Rightarrow> nat \<Rightarrow> world
     \<Rightarrow> (js_error + SunriseResult) \<times> world" where
  "get_loop ToString api retries w =
     (let w1 = w\<lparr>requested := requested w @ [baseUrl w]\<rparr>
      in case api (length (requested w)) of
           Inl e \<Rightarrow> (Inl e, w1)
         | Inr resp \<Rightarrow>
             if status resp = OK \<and> day_length (results resp) \<noteq> 0 then (Inr (results resp), w1)
             else if retries < 5 \<and> (status resp = OK \<or> status resp = UNKNOWN_ERROR)
               then get_loop ToString api (retries + 1) (w1\<lparr>slept := slept w1 @ [10]\<rparr>)
               else (Inl (Error (''Sunrise API status: '' @ status_string (status resp)
                                   @ ''  Day length: '' @ ToString (day_length (results resp)))),
                     w1))"
  by pat_completeness auto
termination
  by (relation "measure (\<lambda>(ToString, api, retries, w). 5 - retries)") auto

declare get_loop.simps [simp del]

definition get ::
  "(rat \<Rightarrow> string) \<Rightarrow> (nat \<Rightarrow> js_error + SunriseResponse) \<Rightarrow> LatLon \<Rightarrow> world
     \<Rightarrow> (js_error + SunriseResult) \<times> world" where
  "get ToString api location w =
     (let w1 = w\<lparr>baseUrl := searchParams_set ''lat'' (toFixed ToString 7 (lat location)) (baseUrl w)\<rparr>;
          w2 = w1\<lparr>baseUrl := searchParams_set ''lng'' (toFixed ToString 7 (lon location)) (baseUrl w1)\<rparr>;
          w3 = w2\<lparr>baseUrl := searchParams_set ''formatted'' ''0'' (baseUrl w2)\<rparr>
      in get_loop ToString api 0 w3)"


text \<open>The value that the three \<^verbatim>\<open>searchParams.set\<close> calls of \<^verbatim>\<open>get\<close> leave in a URL.\<close>

definition get_url :: "(rat \<Rightarrow> string) \<Rightarrow> LatLon \<Rightarrow> URL \<Rightarrow> URL" where
  "get_url ToString location u =
     searchParams_set ''formatted'' ''0''
       (searchParams_set ''lng'' (toFixed ToString 7 (lon location))
         (searchParams_set ''lat'' (toFixed ToString 7 (lat location)) u))"

section \<open>findEarliestSunrise\<close>

text \<open>
  \<^verbatim>\<open>Array.prototype.reduce\<close> without an initial value: a \<^verbatim>\<open>TypeError\<close> on the empty
  array, otherwise the fold from the left that starts with the first element.
\<close>

definition reduce :: "('a \<Rightarrow> 'a \<Rightarrow> 'a) \<Rightarrow> 'a list \<Rightarrow> js_error + 'a" where
  "reduce f xs =
     (case xs of
        [] \<Rightarrow> Inl (TypeError ''Reduce of empty array with no initial value'')
      | x # rest \<Rightarrow> Inr (foldl f x rest))"

text \<open>
  \<^verbatim>\<open>a.sunrise < b.sunrise\<close> on strings compares code units lexicographically, which is
  the order of \<^typ>\<open>string\<close>.
\<close>

definition findEarliestSunrise :: "SunriseResult list \<Rightarrow> js_error + SunriseResult" where
  "findEarliestSunrise sunrises = reduce (\<lambda>a b. if sunrise a < sunrise b then a else b) sunrises"

section \<open>The batch: concurrent calls of get under Promise.all\<close>

text \<open>
  An \<^verbatim>\<open>async\<close> call of \<^verbatim>\<open>get\<close> runs until its next \<^verbatim>\<open>await\<close> and is resumed by the
  event loop. Between two events it is suspended at \<^verbatim>\<open>await httpGetJson(apiUrl)\<close> or at
  \<^verbatim>\<open>await sleep(10)\<close>, in both cases with its local counter \<^verbatim>\<open>retries\<close>, or its promise
  is settled.
\<close>

datatype call =
  AwaitResponse nat
| AwaitSleep nat
| Fulfilled SunriseResult
| Rejected js_error

text \<open>
  The events of the loop: the pending request of call \<open>i\<close> settles (with the error that
  rejects \<^verbatim>\<open>httpGetJson\<close> or with the decoded body), or the timer of call \<open>i\<close> fires.
\<close>

datatype event =
  Response nat "js_error + SunriseResponse"
| Timer nat

text \<open>The call of \<^verbatim>\<open>get\<close> up to its first \<^verbatim>\<open>await\<close>.\<close>

definition get_start :: "(rat \<Rightarrow> string) \<Rightarrow> LatLon \<Rightarrow> world \<Rightarrow> call \<times> world" where
  "get_start ToString location w =
     (let w1 = w\<lparr>baseUrl := searchParams_set ''lat'' (toFixed ToString 7 (lat location)) (baseUrl w)\<rparr>;
          w2 = w1\<lparr>baseUrl := searchParams_set ''lng'' (toFixed ToString 7 (lon location)) (baseUrl w1)\<rparr>;
          w3 = w2\<lparr>baseUrl := searchParams_set ''formatted'' ''0'' (baseUrl w2)\<rparr>
      in (AwaitResponse 0, w3\<lparr>requested := requested w3 @ [baseUrl w3]\<rparr>))"

text \<open>
  The call resumed after \<^verbatim>\<open>await httpGetJson(apiUrl)\<close>, up to its next \<^verbatim>\<open>await\<close>, its
  \<^verbatim>\<open>return\<close> or its \<^verbatim>\<open>throw\<close>.
\<close>

definition get_on_response ::
  "(rat \<Rightarrow> string) \<Rightarrow> nat \<Rightarrow> js_error + SunriseResponse \<Rightarrow> world \<Rightarrow> call \<times> world" where
  "get_on_response ToString retries r w =
     (case r of
        Inl e \<Rightarrow> (Rejected e, w)
      | Inr resp \<Rightarrow>
          if status resp = OK \<and> day_length (results resp) \<noteq> 0 then (Fulfilled (results resp), w)
          else if retries < 5 \<and> (status resp = OK \<or> status resp = UNKNOWN_ERROR)
            then (AwaitSleep (retries + 1), w\<lparr>slept := slept w @ [10]\<rparr>)
            else (Rejected (Error (''Sunrise API status: '' @ status_string (status resp)
                                    @ ''  Day length: '' @ ToString (day_length (results resp)))),
                  w))"

text \<open>
  The call resumed after \<^verbatim>\<open>await sleep(10)\<close>: \<^verbatim>\<open>continue\<close> leads to the next
  \<^verbatim>\<open>httpGetJson(apiUrl)\<close>, which reads the module-level URL as it is at that moment.
\<close>

definition get_on_timer :: "nat \<Rightarrow> world \<Rightarrow> call \<times> world" where
  "get_on_timer retries w = (AwaitResponse retries, w\<lparr>requested := requested w @ [baseUrl w]\<rparr>)"

text \<open>What \<^verbatim>\<open>console.log\<close> has written.\<close>

datatype printed = Obj SunriseResult | Num rat

text \<open>
  The process: the state of \<^verbatim>\<open>sunriseClient\<close>, the calls of \<^verbatim>\<open>get\<close> in the order of
  \<^verbatim>\<open>locations\<close>, the promise of \<^verbatim>\<open>Promise.all\<close> (pending, rejected or fulfilled), and the
  two output streams.
\<close>

record process =
  env :: world
  calls :: "call list"
  all_promise :: "(js_error + SunriseResult list) option"
  stdout :: "printed list"
  stderr :: "js_error list"

fun fulfilled_value :: "call \<Rightarrow> SunriseResult option" where
  "fulfilled_value (Fulfilled v) = Some v"
| "fulfilled_value _ = None"

fun is_rejected :: "call \<Rightarrow> bool" where
  "is_rejected (Rejected e) = True"
| "is_rejected _ = False"

text \<open>The values of the calls in their order, when every call is fulfilled.\<close>

fun values_of :: "call list \<Rightarrow> SunriseResult list option" where
  "values_of [] = Some []"
| "values_of (c # cs) =
     (case fulfilled_value c of
        None \<Rightarrow> None
      | Some v \<Rightarrow> (case values_of cs of None \<Rightarrow> None | Some vs \<Rightarrow> Some (v # vs)))"

text \<open>The handler of \<^verbatim>\<open>.catch\<close>.\<close>

definition on_catch :: "js_error \<Rightarrow> process \<Rightarrow> process" where
  "on_catch err p = p\<lparr>stderr := stderr p @ [err]\<rparr>"

text \<open>
  The handler of \<^verbatim>\<open>.then\<close>; what it throws rejects the promise that \<^verbatim>\<open>.catch\<close> is
  attached to.
\<close>

definition on_then :: "SunriseResult list \<Rightarrow> process \<Rightarrow> process" where
  "on_then sunrises p =
     (case findEarliestSunrise sunrises of
        Inl err \<Rightarrow> on_catch err p
      | Inr earliest \<Rightarrow> p\<lparr>stdout := stdout p @ [Obj earliest, Num (day_length earliest)]\<rparr>)"

text \<open>
  \<^verbatim>\<open>Promise.all\<close> after call \<open>i\<close> has changed: an already settled promise stays as it
  is; a rejected element rejects it with that error; a fulfilled element fulfils it
  when no element is left, with the values in the order of the elements.
\<close>

definition promise_all_react :: "nat \<Rightarrow> process \<Rightarrow> process" where
  "promise_all_react i p =
     (case all_promise p of
        Some _ \<Rightarrow> p
      | None \<Rightarrow>
          (case calls p ! i of
             Rejected e \<Rightarrow> on_catch e (p\<lparr>all_promise := Some (Inl e)\<rparr>)
           | Fulfilled v \<Rightarrow>
               (case values_of (calls p) of
                  None \<Rightarrow> p
                | Some vs \<Rightarrow> on_then vs (p\<lparr>all_promise := Some (Inr vs)\<rparr>))
           | _ \<Rightarrow> p))"

text \<open>
  One turn of the event loop. An event for a call that does not wait for it does not
  occur and changes nothing.
\<close>

fun step :: "(rat \<Rightarrow> string) \<Rightarrow> event \<Rightarrow> process \<Rightarrow> process" where
  "step ToString (Response i r) p =
     (if i < length (calls p) then
        (case calls p ! i of
           AwaitResponse retries \<Rightarrow>
             (let (c, w) = get_on_response ToString retries r (env p)
              in promise_all_react i (p\<lparr>env := w, calls := (calls p)[i := c]\<rparr>))
         | _ \<Rightarrow> p)
      else p)"
| "step ToString (Timer i) p =
     (if i < length (calls p) then
        (case calls p ! i of
           AwaitSleep retries \<Rightarrow>
             (let (c, w) = get_on_timer retries (env p)
              in p\<lparr>env := w, calls := (calls p)[i := c]\<rparr>)
         | _ \<Rightarrow> p)
      else p)"

fun run :: "(rat \<Rightarrow> string) \<Rightarrow> event list \<Rightarrow> process \<Rightarrow> process" where
  "run ToString [] p = p"
| "run ToString (ev # evs) p = run ToString evs (step ToString ev p)"

text \<open>\<^verbatim>\<open>locations.map(loc => sunriseClient.get(loc))\<close>: the calls start one after the other.\<close>

fun start_calls :: "(rat \<Rightarrow> string) \<Rightarrow> LatLon list \<Rightarrow> world \<Rightarrow> call list \<times> world" where
  "start_calls ToString [] w = ([], w)"
| "start_calls ToString (loc # locs) w =
     (let (c, w1) = get_start ToString loc w;
          (cs, w2) = start_calls ToString locs w1
      in (c # cs, w2))"

text \<open>
  The script up to the end of its synchronous part. \<^verbatim>\<open>Promise.all\<close> of no promise at all
  is fulfilled with the empty array before any event.
\<close>

definition main :: "(rat \<Rightarrow> string) \<Rightarrow> LatLon list \<Rightarrow> process" where
  "main ToString locations =
     (let (cs, w) = start_calls ToString locations fresh_world;
          p = \<lparr>env = w, calls = cs, all_promise = None, stdout = [], stderr = []\<rparr>
      in if cs = [] then on_then [] (p\<lparr>all_promise := Some (Inr [])\<rparr>) else p)"

section \<open>Auxiliary definitions for the proofs\<close>

text \<open>The query that \<^verbatim>\<open>get\<close> writes for a location.\<close>

definition query_of :: "(rat \<Rightarrow> string) \<Rightarrow> LatLon \<Rightarrow> (string \<times> string) list" where
  "query_of ToString location =
     [(''lat'', toFixed ToString 7 (lat location)),
      (''lng'', toFixed ToString 7 (lon location)),
      (''formatted'', ''0'')]"

text \<open>The natural number that a string of decimal digits denotes.\<close>

definition decimal_value :: "string \<Rightarrow> nat" where
  "decimal_value s = foldl (\<lambda>a c. 10 * a + (of_char c - 48)) 0 s"

text \<open>
  The invariant of the batch: the promise of \<^verbatim>\<open>Promise.all\<close> and the two output streams
  agree with the calls.
\<close>

definition consistent :: "process \<Rightarrow> bool" where
  "consistent p =
     (case all_promise p of
        None \<Rightarrow> (\<forall>c\<in>set (calls p). \<not> is_rejected c) \<and> values_of (calls p) = None
                  \<and> stdout p = [] \<and> stderr p = []
      | Some (Inl e) \<Rightarrow> (\<exists>i<length (calls p). calls p ! i = Rejected e)
                  \<and> stdout p = [] \<and> stderr p = [e]
      | Some (Inr vs) \<Rightarrow> values_of (calls p) = Some vs
                  \<and> (case findEarliestSunrise vs of
                        Inl err \<Rightarrow> stdout p = [] \<and> stderr p = [err]
                      | Inr earliest \<Rightarrow> stdout p = [Obj earliest, Num (day_length earliest)]
                                         \<and> stderr p = []))"

text \<open>
  Concrete inputs for the examples: a result with a given sunrise and day length, and
  \<^verbatim>\<open>Number::toString\<close> on the natural numbers below \<open>10^21\<close>, where it writes the
  decimal digits.
\<close>

definition sample_result :: "string \<Rightarrow> rat \<Rightarrow> SunriseResult" where
  "sample_result s d =
     \<lparr>sunrise = s, sunset = ''2024-01-01T17:00:00+00:00'',
      solar_noon = ''2024-01-01T12:00:00+00:00'', day_length = d,
      civil_twilight_begin = ''2024-01-01T05:00:00+00:00'',
      civil_twilight_end = ''2024-01-01T17:30:00+00:00'',
      nautical_twilight_begin = ''2024-01-01T04:30:00+00:00'',
      nautical_twilight_end = ''2024-01-01T18:00:00+00:00'',
      astronomical_twilight_begin = ''2024-01-01T04:00:00+00:00'',
      astronomical_twilight_end = ''2024-01-01T18:30:00+00:00''\<rparr>"

definition ToString_nat :: "rat \<Rightarrow> string" where
  "ToString_nat x = digits (nat \<lfloor>x\<rfloor>)"

section \<open>The retry loop\<close>

lemma get_loop_retry:
  assumes "api (length (requested w)) = Inr resp"
    and "\<not> (status resp = OK \<and> day_length (results resp) \<noteq> 0)"
    and "retries < 5"
    and "status resp = OK \<or> status resp = UNKNOWN_ERROR"
  shows "get_loop T api retries w =
         get_loop T api (retries + 1) (w\<lparr>requested := requested w @ [baseUrl w], slept := slept w @ [10]\<rparr>)"
  using assms by (subst get_loop.simps) (auto simp add: Let_def)

lemma get_loop_retries:
  assumes "\<forall>i<k. \<exists>resp. api (length (requested w) + i) = Inr resp
             \<and> \<not> (status resp = OK \<and> day_length (results resp) \<noteq> 0)
             \<and> (status resp = OK \<or> status resp = UNKNOWN_ERROR)"
    and "retries + k \<le> 5"
  shows "get_loop T api retries w =
         get_loop T api (retries + k)
           (w\<lparr>requested := requested w @ replicate k (baseUrl w), slept := slept w @ replicate k 10\<rparr>)"
  using assms
proof (induction k arbitrary: retries w)
  case 0
  then show ?case by simp
next
  case (Suc k)
  from Suc.prems(1) obtain resp where r: "api (length (requested w)) = Inr resp"
    "\<not> (status resp = OK \<and> day_length (results resp) \<noteq> 0)"
    "status resp = OK \<or> status resp = UNKNOWN_ERROR"
    by (metis add.right_neutral zero_less_Suc)
  let ?w = "w\<lparr>requested := requested w @ [baseUrl w], slept := slept w @ [10]\<rparr>"
  have step: "get_loop T api retries w = get_loop T api (retries + 1) ?w"
    using r Suc.prems(2) by (intro get_loop_retry) auto
  have "\<forall>i<k. \<exists>resp. api (length (requested ?w) + i) = Inr resp
             \<and> \<not> (status resp = OK \<and> day_length (results resp) \<noteq> 0)
             \<and> (status resp = OK \<or> status resp = UNKNOWN_ERROR)"
  proof (intro allI impI)
    fix i assume "i < k"
    then have "Suc i < Suc k" by simp
    from Suc.prems(1)[rule_format, OF this] show "\<exists>resp. api (length (requested ?w) + i) = Inr resp
             \<and> \<not> (status resp = OK \<and> day_length (results resp) \<noteq> 0)
             \<and> (status resp = OK \<or> status resp = UNKNOWN_ERROR)" by simp
  qed
  from Suc.IH[OF this, of "retries + 1"] Suc.prems(2)
  have "get_loop T api (retries + 1) ?w = get_loop T api (retries + 1 + k)
     (?w\<lparr>requested := requested ?w @ replicate k (baseUrl ?w), slept := slept ?w @ replicate k 10\<rparr>)"
    by simp
  with step show ?case by (simp add: replicate_append_same)
qed

lemma get_unfold:
  "get T api location w = get_loop T api 0 (w\<lparr>baseUrl := get_url T location (baseUrl w)\<rparr>)"
  by (simp add: get_def get_url_def Let_def)

lemma get_loop_world:
  "retries \<le> 5 \<Longrightarrow> \<exists>n. 1 \<le> n \<and> n + retries \<le> 6 \<and> snd (get_loop T api retries w) =
         w\<lparr>requested := requested w @ replicate n (baseUrl w),
           slept := slept w @ replicate (n - 1) 10\<rparr>"
proof (induction T api retries w rule: get_loop.induct)
  case (1 T api retries w)
  let ?w1 = "w\<lparr>requested := requested w @ [baseUrl w]\<rparr>"
  have stop: "\<exists>n. 1 \<le> n \<and> n + retries \<le> 6 \<and> w' =
         w\<lparr>requested := requested w @ replicate n (baseUrl w),
           slept := slept w @ replicate (n - 1) 10\<rparr>" if "w' = ?w1" for w'
    using that "1.prems" by (intro exI[of _ 1]) simp
  show ?case
  proof (cases "api (length (requested w))")
    case (Inl e)
    then have "snd (get_loop T api retries w) = ?w1" by (subst get_loop.simps) simp
    then show ?thesis by (rule stop)
  next
    case (Inr resp)
    show ?thesis
    proof (cases "\<not> (status resp = OK \<and> day_length (results resp) \<noteq> 0)
                  \<and> retries < 5 \<and> (status resp = OK \<or> status resp = UNKNOWN_ERROR)")
      case True
      let ?w2 = "w\<lparr>requested := requested w @ [baseUrl w], slept := slept w @ [10]\<rparr>"
      have eq: "get_loop T api retries w = get_loop T api (retries + 1) ?w2"
        using Inr True by (intro get_loop_retry) auto
      from True have "retries + 1 \<le> 5" by simp
      with "1.IH"[OF refl Inr] True obtain n where n: "1 \<le> n" "n + (retries + 1) \<le> 6"
        "snd (get_loop T api (retries + 1) ?w2) =
           ?w2\<lparr>requested := requested ?w2 @ replicate n (baseUrl ?w2),
               slept := slept ?w2 @ replicate (n - 1) 10\<rparr>"
        by auto
      have "replicate (n - 1) (10::nat) @ [10] = replicate n 10"
        using n(1) by (cases n) (simp_all add: replicate_append_same)
      then have "[10] @ replicate (n - 1) (10::nat) = replicate n 10"
        by (simp add: replicate_append_same)
      with n have "1 \<le> Suc n \<and> Suc n + retries \<le> 6 \<and> snd (get_loop T api retries w) =
         w\<lparr>requested := requested w @ replicate (Suc n) (baseUrl w),
           slept := slept w @ replicate (Suc n - 1) 10\<rparr>"
        unfolding eq by simp
      then show ?thesis by blast
    next
      case False
      then have "snd (get_loop T api retries w) = ?w1"
        using Inr by (subst get_loop.simps) (auto simp: Let_def)
      then show ?thesis by (rule stop)
    qed
  qed
qed

text \<open>
  The loop is the sequence of the resumptions of the suspended call: both read the same
  statements of \<^verbatim>\<open>get\<close>.
\<close>

lemma get_loop_steps:
  "get_loop T api retries w =
     (case get_on_response T retries (api (length (requested w))) (snd (get_on_timer retries w)) of
        (Fulfilled v, w') \<Rightarrow> (Inr v, w')
      | (Rejected e, w') \<Rightarrow> (Inl e, w')
      | (AwaitSleep r, w') \<Rightarrow> get_loop T api r w'
      | (AwaitResponse r, w') \<Rightarrow> get_loop T api r w')"
  by (subst get_loop.simps)
     (auto simp: get_on_response_def get_on_timer_def Let_def split: sum.splits)

lemma get_start_get_url:
  "get_start T location w = get_on_timer 0 (w\<lparr>baseUrl := get_url T location (baseUrl w)\<rparr>)"
  by (simp add: get_start_def get_on_timer_def get_url_def Let_def)

text \<open>
  Claim C1. When every answer is \<^verbatim>\<open>OK\<close> with a zero day length, or \<^verbatim>\<open>UNKNOWN_ERROR\<close>,
  \<^verbatim>\<open>get\<close> makes exactly six requests and sleeps five times, then throws the error whose
  message carries the status and the day length of the sixth answer (the code has one
  class of error; the exhausted budget shows in the status \<^verbatim>\<open>OK\<close> or \<^verbatim>\<open>UNKNOWN_ERROR\<close> of
  the message). Whatever the service answers, a call makes at most six requests; the
  loop is a total function, with the measure \<open>5 - retries\<close>.
\<close>

theorem get_exhausts_retries:
  assumes "\<forall>i<6. \<exists>resp. api (length (requested w) + i) = Inr resp
             \<and> ((status resp = OK \<and> day_length (results resp) = 0) \<or> status resp = UNKNOWN_ERROR)"
  shows "(\<exists>resp. api (length (requested w) + 5) = Inr resp
           \<and> get T api location w =
               (Inl (Error (''Sunrise API status: '' @ status_string (status resp)
                             @ ''  Day length: '' @ T (day_length (results resp)))),
                w\<lparr>baseUrl := get_url T location (baseUrl w),
                   requested := requested w @ replicate 6 (get_url T location (baseUrl w)),
                   slept := slept w @ replicate 5 10\<rparr>))
         \<and> (\<forall>api' w'. length (requested (snd (get T api' location w')))
                         \<le> length (requested w') + 6)"
proof -
  let ?u = "get_url T location (baseUrl w)"
  let ?w0 = "w\<lparr>baseUrl := ?u\<rparr>"
  have "(5::nat) < 6" by simp
  from assms[rule_format, OF this] obtain resp where r: "api (length (requested w) + 5) = Inr resp"
    "(status resp = OK \<and> day_length (results resp) = 0) \<or> status resp = UNKNOWN_ERROR"
    by auto
  have "\<forall>i<5. \<exists>resp. api (length (requested ?w0) + i) = Inr resp
             \<and> \<not> (status resp = OK \<and> day_length (results resp) \<noteq> 0)
             \<and> (status resp = OK \<or> status resp = UNKNOWN_ERROR)"
  proof (intro allI impI)
    fix i :: nat assume "i < 5"
    then have "i < 6" by simp
    from assms[rule_format, OF this] show "\<exists>resp. api (length (requested ?w0) + i) = Inr resp
             \<and> \<not> (status resp = OK \<and> day_length (results resp) \<noteq> 0)
             \<and> (status resp = OK \<or> status resp = UNKNOWN_ERROR)" by auto
  qed
  from get_loop_retries[OF this, of 0 T]
  have "get_loop T api 0 ?w0 = get_loop T api 5
     (?w0\<lparr>requested := requested ?w0 @ replicate 5 (baseUrl ?w0), slept := slept ?w0 @ replicate 5 10\<rparr>)"
    by simp
  also have "\<dots> = (Inl (Error (''Sunrise API status: '' @ status_string (status resp)
                             @ ''  Day length: '' @ T (day_length (results resp)))),
                w\<lparr>baseUrl := ?u, requested := requested w @ replicate 6 ?u,
                   slept := slept w @ replicate 5 10\<rparr>)"
    using r by (subst get_loop.simps) (auto simp: replicate_append_same eval_nat_numeral)
  finally have main: "\<exists>resp. api (length (requested w) + 5) = Inr resp
           \<and> get T api location w =
               (Inl (Error (''Sunrise API status: '' @ status_string (status resp)
                             @ ''  Day length: '' @ T (day_length (results resp)))),
                w\<lparr>baseUrl := ?u, requested := requested w @ replicate 6 ?u,
                   slept := slept w @ replicate 5 10\<rparr>)"
    using r(1) by (simp add: get_unfold)
  have "length (requested (snd (get T api' location w'))) \<le> length (requested w') + 6" for api' w'
  proof -
    from get_loop_world[of 0 T api' "w'\<lparr>baseUrl := get_url T location (baseUrl w')\<rparr>"]
    obtain n where "n + 0 \<le> 6" "snd (get T api' location w') =
        w'\<lparr>baseUrl := get_url T location (baseUrl w'),
           requested := requested w' @ replicate n (get_url T location (baseUrl w')),
           slept := slept w' @ replicate (n - 1) 10\<rparr>"
      by (auto simp: get_unfold)
    then show ?thesis by simp
  qed
  with main show ?thesis by blast
qed

theorem get_exhausts_retries_witness:
  "fst (get ToString_nat
             (\<lambda>n. Inr \<lparr>results = sample_result ''2024-01-01T06:00:00+00:00'' 0, status = OK\<rparr>)
             \<lparr>lat = 1, lon = 2\<rparr> fresh_world)
       = Inl (Error ''Sunrise API status: OK  Day length: 0'')
   \<and> length (requested (snd (get ToString_nat
             (\<lambda>n. Inr \<lparr>results = sample_result ''2024-01-01T06:00:00+00:00'' 0, status = OK\<rparr>)
             \<lparr>lat = 1, lon = 2\<rparr> fresh_world))) = 6
   \<and> slept (snd (get ToString_nat
             (\<lambda>n. Inr \<lparr>results = sample_result ''2024-01-01T06:00:00+00:00'' 0, status = OK\<rparr>)
             \<lparr>lat = 1, lon = 2\<rparr> fresh_world)) = [10, 10, 10, 10, 10]"
proof -
  let ?api = "\<lambda>n::nat. Inr \<lparr>results = sample_result ''2024-01-01T06:00:00+00:00'' 0, status = OK\<rparr>
                :: js_error + SunriseResponse"
  have h: "\<forall>i<6. \<exists>resp. ?api (length (requested fresh_world) + i) = Inr resp
             \<and> ((status resp = OK \<and> day_length (results resp) = 0) \<or> status resp = UNKNOWN_ERROR)"
    by (simp add: sample_result_def fresh_world_def)
  have d: "ToString_nat 0 = ''0''" by (simp add: ToString_nat_def digits.simps)
  from get_exhausts_retries[OF h, where T = ToString_nat and location = "\<lparr>lat = 1, lon = 2\<rparr>"]
  show ?thesis
    by (simp add: sample_result_def d fresh_world_def eval_nat_numeral)
qed

text \<open>
  Claim C2. An answer with status \<^verbatim>\<open>INVALID_REQUEST\<close> or \<^verbatim>\<open>INVALID_DATE\<close> makes the loop
  throw at once, whatever the value of \<^verbatim>\<open>retries\<close>: no further request and no sleep, and
  the message of the error carries that status and the day length of the answer. So
  does \<^verbatim>\<open>get\<close> when it is the first answer.
\<close>

theorem get_fatal_status:
  assumes "api (length (requested w)) = Inr resp"
    and "status resp = INVALID_REQUEST \<or> status resp = INVALID_DATE"
  shows "get_loop T api retries w =
           (Inl (Error (''Sunrise API status: '' @ status_string (status resp)
                         @ ''  Day length: '' @ T (day_length (results resp)))),
            w\<lparr>requested := requested w @ [baseUrl w]\<rparr>)
         \<and> get T api location w =
           (Inl (Error (''Sunrise API status: '' @ status_string (status resp)
                         @ ''  Day length: '' @ T (day_length (results resp)))),
            w\<lparr>baseUrl := get_url T location (baseUrl w),
               requested := requested w @ [get_url T location (baseUrl w)]\<rparr>)"
proof -
  have loop: "get_loop T api r w' =
           (Inl (Error (''Sunrise API status: '' @ status_string (status resp)
                         @ ''  Day length: '' @ T (day_length (results resp)))),
            w'\<lparr>requested := requested w' @ [baseUrl w']\<rparr>)"
    if "requested w' = requested w" for r w'
    using assms that by (subst get_loop.simps) (auto simp: Let_def)
  show ?thesis
    by (simp add: get_unfold loop)
qed

theorem get_fatal_status_witness:
  "(\<lambda>n. Inr \<lparr>results = sample_result '''' 0, status = INVALID_REQUEST\<rparr>)
       (length (requested fresh_world))
     = Inr \<lparr>results = sample_result '''' 0, status = INVALID_REQUEST\<rparr>
   \<and> (status \<lparr>results = sample_result '''' 0, status = INVALID_REQUEST\<rparr> = INVALID_REQUEST
        \<or> status \<lparr>results = sample_result '''' 0, status = INVALID_REQUEST\<rparr> = INVALID_DATE)
   \<and> fst (get ToString_nat (\<lambda>n. Inr \<lparr>results = sample_result '''' 0, status = INVALID_REQUEST\<rparr>)
             \<lparr>lat = 1, lon = 2\<rparr> fresh_world)
       = Inl (Error ''Sunrise API status: INVALID_REQUEST  Day length: 0'')
   \<and> length (requested (snd (get ToString_nat
             (\<lambda>n. Inr \<lparr>results = sample_result '''' 0, status = INVALID_REQUEST\<rparr>)
             \<lparr>lat = 1, lon = 2\<rparr> fresh_world))) = 1
   \<and> slept (snd (get ToString_nat
             (\<lambda>n. Inr \<lparr>results = sample_result '''' 0, status = INVALID_REQUEST\<rparr>)
             \<lparr>lat = 1, lon = 2\<rparr> fresh_world)) = []"
proof -
  let ?resp = "\<lparr>results = sample_result '''' 0, status = INVALID_REQUEST\<rparr>"
  let ?api = "\<lambda>n::nat. Inr ?resp :: js_error + SunriseResponse"
  have h1: "?api (length (requested fresh_world)) = Inr ?resp" by simp
  have h2: "status ?resp = INVALID_REQUEST \<or> status ?resp = INVALID_DATE" by simp
  have d: "ToString_nat 0 = ''0''" by (simp add: ToString_nat_def digits.simps)
  from get_fatal_status[OF h1 h2, where T = ToString_nat and retries = 0
                        and location = "\<lparr>lat = 1, lon = 2\<rparr>"]
  show ?thesis
    by (simp add: sample_result_def d fresh_world_def)
qed

text \<open>
  Claim C3. When the first \<open>k\<close> answers are \<^verbatim>\<open>OK\<close> with a zero day length and the next
  one is \<^verbatim>\<open>OK\<close> with a non-zero day length, \<^verbatim>\<open>get\<close> returns the record of that answer
  after \<open>k + 1\<close> requests and \<open>k\<close> calls of \<^verbatim>\<open>sleep(10)\<close>, so after delays of \<open>k * 10\<close>
  milliseconds in all; with \<open>k = 0\<close> there is one request and no sleep. This holds up to
  \<open>k = 5\<close>, the claim's \<open>k < 5\<close> included.
\<close>

theorem get_succeeds_after_retries:
  assumes "k \<le> 5"
    and "\<forall>i<k. \<exists>resp. api (length (requested w) + i) = Inr resp
             \<and> status resp = OK \<and> day_length (results resp) = 0"
    and "api (length (requested w) + k) = Inr good"
    and "status good = OK" and "day_length (results good) \<noteq> 0"
  shows "get T api location w =
           (Inr (results good),
            w\<lparr>baseUrl := get_url T location (baseUrl w),
               requested := requested w @ replicate (k + 1) (get_url T location (baseUrl w)),
               slept := slept w @ replicate k 10\<rparr>)
         \<and> sum_list (slept (snd (get T api location w))) = sum_list (slept w) + k * 10"
proof -
  let ?u = "get_url T location (baseUrl w)"
  let ?w0 = "w\<lparr>baseUrl := ?u\<rparr>"
  have "\<forall>i<k. \<exists>resp. api (length (requested ?w0) + i) = Inr resp
             \<and> \<not> (status resp = OK \<and> day_length (results resp) \<noteq> 0)
             \<and> (status resp = OK \<or> status resp = UNKNOWN_ERROR)"
    using assms(2) by auto
  from get_loop_retries[OF this, of 0 T] assms(1)
  have "get_loop T api 0 ?w0 = get_loop T api k
     (?w0\<lparr>requested := requested ?w0 @ replicate k (baseUrl ?w0), slept := slept ?w0 @ replicate k 10\<rparr>)"
    by simp
  also have "\<dots> = (Inr (results good),
            w\<lparr>baseUrl := ?u, requested := requested w @ replicate (k + 1) ?u,
               slept := slept w @ replicate k 10\<rparr>)"
    using assms(3-5) by (subst get_loop.simps) (auto simp: replicate_append_same Let_def)
  finally have "get T api location w = (Inr (results good),
            w\<lparr>baseUrl := ?u, requested := requested w @ replicate (k + 1) ?u,
               slept := slept w @ replicate k 10\<rparr>)"
    by (simp add: get_unfold)
  then show ?thesis by (simp add: sum_list_replicate)
qed

theorem get_succeeds_after_retries_witness:
  "(2::nat) \<le> 5
   \<and> get ToString_nat
        (\<lambda>n. Inr \<lparr>results = sample_result ''2024-01-01T06:00:00+00:00''
                              (if n < 2 then 0 else 39600), status = OK\<rparr>)
        \<lparr>lat = 1, lon = 2\<rparr> fresh_world
      = (Inr (sample_result ''2024-01-01T06:00:00+00:00'' 39600),
         fresh_world\<lparr>baseUrl := get_url ToString_nat \<lparr>lat = 1, lon = 2\<rparr> initial_baseUrl,
            requested := replicate 3 (get_url ToString_nat \<lparr>lat = 1, lon = 2\<rparr> initial_baseUrl),
            slept := [10, 10]\<rparr>)"
proof -
  let ?api = "\<lambda>n::nat. Inr \<lparr>results = sample_result ''2024-01-01T06:00:00+00:00''
                              (if n < 2 then 0 else 39600), status = OK\<rparr>
               :: js_error + SunriseResponse"
  let ?good = "\<lparr>results = sample_result ''2024-01-01T06:00:00+00:00'' 39600, status = OK\<rparr>"
  have k: "(2::nat) \<le> 5" by simp
  have h: "\<forall>i<2. \<exists>resp. ?api (length (requested fresh_world) + i) = Inr resp
             \<and> status resp = OK \<and> day_length (results resp) = 0"
    by (simp add: sample_result_def fresh_world_def)
  have g: "?api (length (requested fresh_world) + 2) = Inr ?good" by (simp add: fresh_world_def)
  have s: "status ?good = OK" by simp
  have dl: "day_length (results ?good) \<noteq> 0" by (simp add: sample_result_def)
  from get_succeeds_after_retries[OF k h g s dl, where T = ToString_nat
                                  and location = "\<lparr>lat = 1, lon = 2\<rparr>"]
  show ?thesis
    by (simp add: fresh_world_def eval_nat_numeral)
qed

section \<open>The earliest sunrise\<close>

lemma foldl_earliest:
  "\<exists>ys zs. a # xs = ys @ foldl (\<lambda>a b. if sunrise a < sunrise b then a else b) a xs # zs
     \<and> (\<forall>y\<in>set ys. sunrise (foldl (\<lambda>a b. if sunrise a < sunrise b then a else b) a xs) \<le> sunrise y)
     \<and> (\<forall>z\<in>set zs. sunrise (foldl (\<lambda>a b. if sunrise a < sunrise b then a else b) a xs) < sunrise z)"
  (is "\<exists>ys zs. ?P xs ys zs")
proof (induction xs rule: rev_induct)
  case Nil
  have "?P [] [] []" by simp
  then show ?case by blast
next
  case (snoc x xs)
  let ?r = "foldl (\<lambda>a b. if sunrise a < sunrise b then a else b) a xs"
  from snoc obtain ys zs where d: "a # xs = ys @ ?r # zs"
    "\<forall>y\<in>set ys. sunrise ?r \<le> sunrise y" "\<forall>z\<in>set zs. sunrise ?r < sunrise z"
    by blast
  show ?case
  proof (cases "sunrise ?r < sunrise x")
    case True
    then have "?P (xs @ [x]) ys (zs @ [x])" using d by auto
    then show ?thesis by blast
  next
    case False
    have "\<forall>y\<in>set (a # xs). sunrise x \<le> sunrise y"
    proof
      fix y assume "y \<in> set (a # xs)"
      then have "y \<in> set ys \<or> y = ?r \<or> y \<in> set zs" unfolding d(1) by auto
      then have "sunrise ?r \<le> sunrise y" using d(2,3) by auto
      with False show "sunrise x \<le> sunrise y" by simp
    qed
    with False have "?P (xs @ [x]) (a # xs) []" by simp
    then show ?thesis by blast
  qed
qed

text \<open>
  Claim C4, as stated, fails in its tie-break: the callback keeps \<^verbatim>\<open>a\<close> only when
  \<^verbatim>\<open>a.sunrise < b.sunrise\<close>, so of two records with the same sunrise the later one is
  returned, not the earlier one.
\<close>

theorem findEarliestSunrise_tie_counterexample:
  "sunrise (sample_result ''2024-01-01T06:00:00+00:00'' 39600)
     = sunrise (sample_result ''2024-01-01T06:00:00+00:00'' 39601)
   \<and> findEarliestSunrise [sample_result ''2024-01-01T06:00:00+00:00'' 39600,
                            sample_result ''2024-01-01T06:00:00+00:00'' 39601]
       = Inr (sample_result ''2024-01-01T06:00:00+00:00'' 39601)
   \<and> findEarliestSunrise [sample_result ''2024-01-01T06:00:00+00:00'' 39600,
                            sample_result ''2024-01-01T06:00:00+00:00'' 39601]
       \<noteq> Inr (sample_result ''2024-01-01T06:00:00+00:00'' 39600)"
  by (simp add: findEarliestSunrise_def reduce_def sample_result_def)

text \<open>
  Claim C4, amended. On a non-empty sequence \<^verbatim>\<open>findEarliestSunrise\<close> returns an element
  whose \<^verbatim>\<open>sunrise\<close> is smallest in the lexicographic order of strings, and of the elements
  with that smallest \<^verbatim>\<open>sunrise\<close> it returns the last one: every element before it is
  greater or equal, every element after it is strictly greater.
\<close>

theorem findEarliestSunrise_last_minimum:
  assumes "sunrises \<noteq> []"
  shows "\<exists>ys r zs. sunrises = ys @ r # zs \<and> findEarliestSunrise sunrises = Inr r
           \<and> (\<forall>y\<in>set ys. sunrise r \<le> sunrise y) \<and> (\<forall>z\<in>set zs. sunrise r < sunrise z)"
proof -
  from assms obtain a xs where s: "sunrises = a # xs" by (cases sunrises) auto
  from foldl_earliest[of a xs] show ?thesis
    unfolding s findEarliestSunrise_def reduce_def by auto
qed

theorem findEarliestSunrise_last_minimum_witness:
  "[sample_result ''2024-01-01T06:00:00Z'' 39600, sample_result ''2024-01-01T05:30:00Z'' 39601,
    sample_result ''2024-01-01T07:00:00Z'' 39602] \<noteq> []
   \<and> (\<exists>ys r zs.
         [sample_result ''2024-01-01T06:00:00Z'' 39600, sample_result ''2024-01-01T05:30:00Z'' 39601,
          sample_result ''2024-01-01T07:00:00Z'' 39602] = ys @ r # zs
         \<and> findEarliestSunrise
              [sample_result ''2024-01-01T06:00:00Z'' 39600, sample_result ''2024-01-01T05:30:00Z'' 39601,
               sample_result ''2024-01-01T07:00:00Z'' 39602] = Inr r
         \<and> (\<forall>y\<in>set ys. sunrise r \<le> sunrise y) \<and> (\<forall>z\<in>set zs. sunrise r < sunrise z))
   \<and> findEarliestSunrise
        [sample_result ''2024-01-01T06:00:00Z'' 39600, sample_result ''2024-01-01T05:30:00Z'' 39601,
         sample_result ''2024-01-01T07:00:00Z'' 39602]
      = Inr (sample_result ''2024-01-01T05:30:00Z'' 39601)"
proof -
  let ?xs = "[sample_result ''2024-01-01T06:00:00Z'' 39600, sample_result ''2024-01-01T05:30:00Z'' 39601,
              sample_result ''2024-01-01T07:00:00Z'' 39602]"
  have h: "?xs \<noteq> []" by simp
  have v: "findEarliestSunrise ?xs = Inr (sample_result ''2024-01-01T05:30:00Z'' 39601)"
    by (simp add: findEarliestSunrise_def reduce_def sample_result_def)
  from findEarliestSunrise_last_minimum[OF h] h v show ?thesis by blast
qed

text \<open>
  Claim C8. On the empty sequence \<^verbatim>\<open>findEarliestSunrise\<close> fails: \<^verbatim>\<open>reduce\<close> without an
  initial value throws a \<^verbatim>\<open>TypeError\<close> on an empty array.
\<close>

theorem findEarliestSunrise_empty:
  "findEarliestSunrise [] = Inl (TypeError ''Reduce of empty array with no initial value'')"
  by (simp add: findEarliestSunrise_def reduce_def)

section \<open>The request URL\<close>

lemma floor_rat_numeral: "\<lfloor>(numeral a / numeral b :: rat)\<rfloor> = numeral a div numeral b"
  using floor_divide_of_int_eq[of "numeral a" "numeral b", where ?'a = rat] by simp

lemma digits_nonempty: "digits n \<noteq> []"
  by (subst digits.simps) simp

lemma digits_chars: "set (digits n) \<subseteq> set ''0123456789''"
proof (induction n rule: digits.induct)
  case (1 n)
  have m: "''0123456789'' ! k \<in> set ''0123456789''" if "k < 10" for k
    using that by (intro nth_mem) simp
  show ?case
  proof (cases "n < 10")
    case True
    then show ?thesis using m[of n] by (subst digits.simps) simp
  next
    case False
    with 1 have "set (digits (n div 10)) \<subseteq> set ''0123456789''" by simp
    moreover have "''0123456789'' ! (n mod 10) \<in> set ''0123456789''" by (rule m) simp
    ultimately show ?thesis using False by (subst digits.simps) simp
  qed
qed

lemma decimal_value_snoc: "decimal_value (s @ [c]) = 10 * decimal_value s + (of_char c - 48)"
  by (simp add: decimal_value_def)

lemma digit_code: "n < 10 \<Longrightarrow> of_char (''0123456789'' ! n) = 48 + n"
proof -
  assume "n < 10"
  then have "n \<in> set [0..<10]" by simp
  then show ?thesis unfolding upt_rec_numeral by (auto simp: upt_rec)
qed

lemma decimal_value_digits: "decimal_value (digits n) = n"
proof (induction n rule: digits.induct)
  case (1 n)
  show ?case
  proof (cases "n < 10")
    case True
    then show ?thesis
      by (subst digits.simps) (simp add: decimal_value_def digit_code)
  next
    case False
    with 1 have "decimal_value (digits (n div 10)) = n div 10" by simp
    moreover have "of_char (''0123456789'' ! (n mod 10)) = 48 + n mod 10"
      by (rule digit_code) simp
    ultimately show ?thesis using False
      by (subst digits.simps) (simp add: decimal_value_snoc)
  qed
qed

lemma decimal_value_zeros: "decimal_value (replicate z CHR ''0'' @ s) = decimal_value s"
proof -
  have "foldl (\<lambda>a c. 10 * a + (of_char c - 48)) a (replicate z CHR ''0'') = a * 10 ^ z"
    for a :: nat
    by (induction z arbitrary: a) simp_all
  from this[of 0] show ?thesis by (simp add: decimal_value_def)
qed

lemma toFixed_7_form:
  assumes "\<bar>x\<bar> < 10 ^ 21"
  shows "\<exists>ip fp. toFixed T 7 x = (if x < 0 then ''-'' else '''') @ ip @ ''.'' @ fp
           \<and> ip \<noteq> [] \<and> set ip \<subseteq> set ''0123456789''
           \<and> length fp = 7 \<and> set fp \<subseteq> set ''0123456789''
           \<and> decimal_value (ip @ fp) = nat \<lfloor>\<bar>x\<bar> * 10 ^ 7 + 1 / 2\<rfloor>"
proof -
  define n where "n = nat \<lfloor>\<bar>x\<bar> * 10 ^ 7 + 1 / 2\<rfloor>"
  define m where "m = (if n = 0 then ''0'' else digits n)"
  define m' where "m' = (if length m \<le> 7 then replicate (8 - length m) (CHR ''0'') @ m else m)"
  define k' where "k' = (if length m \<le> 7 then 8 else length m)"
  have mchars: "set m \<subseteq> set ''0123456789''"
    using digits_chars[of n] by (simp add: m_def)
  have m'chars: "set m' \<subseteq> set ''0123456789''"
    using mchars by (auto simp: m'_def)
  have len: "length m' = k'" "8 \<le> k'"
    by (auto simp: m'_def k'_def)
  have tf: "toFixed T 7 x = (if x < 0 then ''-'' else '''') @ take (k' - 7) m' @ ''.'' @ drop (k' - 7) m'"
    using assms by (simp add: toFixed_def Let_def m'_def k'_def m_def n_def abs_if)
  have "decimal_value m = n"
    by (simp add: m_def decimal_value_digits) (simp add: decimal_value_def)
  then have "decimal_value m' = n"
    by (simp add: m'_def decimal_value_zeros)
  then have "decimal_value (take (k' - 7) m' @ drop (k' - 7) m') = n" by simp
  moreover have "take (k' - 7) m' \<noteq> []" using len by auto
  moreover have "length (drop (k' - 7) m') = 7" using len by simp
  moreover have "set (take (k' - 7) m') \<subseteq> set ''0123456789''"
    using m'chars set_take_subset by fast
  moreover have "set (drop (k' - 7) m') \<subseteq> set ''0123456789''"
    using m'chars set_drop_subset by fast
  ultimately show ?thesis using tf unfolding n_def by blast
qed

text \<open>The number that the digits denote is within half a unit of the seventh decimal.\<close>

lemma toFixed_7_nearest:
  assumes "0 \<le> (x::rat)"
  shows "\<bar>of_nat (nat \<lfloor>x * 10 ^ 7 + 1 / 2\<rfloor>) / 10 ^ 7 - x\<bar> \<le> 1 / (2 * 10 ^ 7)"
proof -
  let ?y = "x * 10 ^ 7"
  have nn: "0 \<le> \<lfloor>?y + 1 / 2\<rfloor>" using assms by simp
  have 1: "of_int \<lfloor>?y + 1 / 2\<rfloor> \<le> ?y + 1 / 2" by (rule of_int_floor_le)
  have 2: "?y + 1 / 2 < of_int \<lfloor>?y + 1 / 2\<rfloor> + 1" using floor_correct[of "?y + 1 / 2"] by simp
  have "\<bar>of_int \<lfloor>?y + 1 / 2\<rfloor> - ?y\<bar> \<le> 1 / 2" using 1 2 by linarith
  then have "\<bar>of_int \<lfloor>?y + 1 / 2\<rfloor> / 10 ^ 7 - x\<bar> \<le> 1 / (2 * 10 ^ 7)"
    by (simp add: field_simps abs_if split: if_splits)
  moreover have "(of_nat (nat \<lfloor>?y + 1 / 2\<rfloor>) :: rat) = of_int \<lfloor>?y + 1 / 2\<rfloor>"
    using nn by simp
  ultimately show ?thesis by simp
qed

lemma map_of_params_set_same: "map_of (params_set name v ps) name = Some v"
  by (induction ps) auto

lemma map_of_params_set_other:
  "name' \<noteq> name \<Longrightarrow> map_of (params_set name v ps) name' = map_of ps name'"
proof (induction ps)
  case Nil
  then show ?case by simp
next
  case (Cons p ps)
  have f: "map_of (filter (\<lambda>q. fst q \<noteq> name) ps) name' = map_of ps name'"
    using Cons.prems by (induction ps) auto
  show ?case using Cons f by auto
qed

lemma get_url_params:
  "map_of (searchParams (get_url T location u)) ''lat'' = Some (toFixed T 7 (lat location))"
  "map_of (searchParams (get_url T location u)) ''lng'' = Some (toFixed T 7 (lon location))"
  "map_of (searchParams (get_url T location u)) ''formatted'' = Some ''0''"
  by (simp_all add: get_url_def searchParams_set_def map_of_params_set_same map_of_params_set_other)

lemma get_url_query:
  assumes "searchParams u = [] \<or> (\<exists>loc. searchParams u = query_of T loc)"
  shows "searchParams (get_url T location u) = query_of T location"
  using assms by (auto simp: get_url_def searchParams_set_def query_of_def)

lemma urlencode_id: "\<forall>c\<in>set s. unreserved c \<Longrightarrow> urlencode s = s"
  by (induction s) (simp_all add: urlencode_def urlencode_char_def)

lemma digit_unreserved: "c \<in> set ''0123456789'' \<Longrightarrow> unreserved c"
  by (auto simp: unreserved_def)

lemma toFixed_7_unreserved:
  assumes "\<bar>x\<bar> < 10 ^ 21"
  shows "\<forall>c\<in>set (toFixed T 7 x). unreserved c"
proof -
  from toFixed_7_form[OF assms, of T] obtain ip fp where
    f: "toFixed T 7 x = (if x < 0 then ''-'' else '''') @ ip @ ''.'' @ fp"
       "set ip \<subseteq> set ''0123456789''" "set fp \<subseteq> set ''0123456789''"
    by blast
  have "unreserved CHR ''-''" "unreserved CHR ''.''" by (simp_all add: unreserved_def)
  moreover have "\<forall>c\<in>set ip. unreserved c" "\<forall>c\<in>set fp. unreserved c"
    using f(2,3) digit_unreserved by blast+
  ultimately show ?thesis unfolding f(1) by auto
qed

lemma search_query_of:
  assumes "searchParams u = query_of T location"
    and "\<bar>lat location\<bar> < 10 ^ 21" and "\<bar>lon location\<bar> < 10 ^ 21"
  shows "search u = ''?lat='' @ toFixed T 7 (lat location)
                    @ ''&lng='' @ toFixed T 7 (lon location) @ ''&formatted=0''"
proof -
  have "urlencode (toFixed T 7 (lat location)) = toFixed T 7 (lat location)"
       "urlencode (toFixed T 7 (lon location)) = toFixed T 7 (lon location)"
    using assms(2,3) by (simp_all add: urlencode_id toFixed_7_unreserved)
  moreover have "urlencode ''lat'' = ''lat''" "urlencode ''lng'' = ''lng''"
    "urlencode ''formatted'' = ''formatted''" "urlencode ''0'' = ''0''"
    by (simp_all add: urlencode_def urlencode_char_def unreserved_def)
  ultimately show ?thesis
    by (simp add: search_def assms(1) query_of_def)
qed

lemma digits_451234567: "digits 451234567 = ''451234567''"
  by (simp add: digits.simps)

lemma digits_937654321: "digits 937654321 = ''937654321''"
  by (simp add: digits.simps)

lemma toFixed_example_lat: "toFixed T 7 (6350561961868397 / 140737488355328) = ''45.1234567''"
  by (simp add: toFixed_def Let_def floor_rat_numeral digits_451234567)

lemma toFixed_example_lon: "toFixed T 7 (- (103096182877391 / 1099511627776)) = ''-93.7654321''"
  by (simp add: toFixed_def Let_def floor_rat_numeral digits_937654321)

text \<open>
  Claim C7. For a coordinate whose fields are below \<open>10^21\<close> in magnitude (every latitude and
  longitude is), each request of \<^verbatim>\<open>get\<close> goes to the base URL followed by
  \<^verbatim>\<open>?lat=...&lng=...&formatted=0\<close>, where the two values are the results of
  \<^verbatim>\<open>toFixed(7)\<close>: an optional minus sign, at least one digit, a point, and exactly seven
  digits, which together denote the integer nearest to the magnitude times \<open>10^7\<close>. The
  module-level URL is as the module created it or as an earlier call left it.
\<close>

theorem get_request_url:
  assumes "searchParams (baseUrl w) = [] \<or> (\<exists>loc. searchParams (baseUrl w) = query_of T loc)"
    and "\<bar>lat location\<bar> < 10 ^ 21" and "\<bar>lon location\<bar> < 10 ^ 21"
  shows "drop (length (requested w)) (requested (snd (get T api location w))) \<noteq> []
         \<and> (\<forall>u\<in>set (drop (length (requested w)) (requested (snd (get T api location w)))).
               searchParams u = query_of T location
               \<and> href u = base (baseUrl w) @ ''?lat='' @ toFixed T 7 (lat location)
                            @ ''&lng='' @ toFixed T 7 (lon location) @ ''&formatted=0'')
         \<and> (\<forall>x\<in>{lat location, lon location}. \<exists>ip fp.
               toFixed T 7 x = (if x < 0 then ''-'' else '''') @ ip @ ''.'' @ fp
               \<and> ip \<noteq> [] \<and> set ip \<subseteq> set ''0123456789''
               \<and> length fp = 7 \<and> set fp \<subseteq> set ''0123456789''
               \<and> decimal_value (ip @ fp) = nat \<lfloor>\<bar>x\<bar> * 10 ^ 7 + 1 / 2\<rfloor>)"
proof -
  let ?u = "get_url T location (baseUrl w)"
  from get_loop_world[of 0 T api "w\<lparr>baseUrl := ?u\<rparr>"]
  obtain n where n: "1 \<le> n" "snd (get T api location w) =
      w\<lparr>baseUrl := ?u, requested := requested w @ replicate n ?u,
        slept := slept w @ replicate (n - 1) 10\<rparr>"
    by (auto simp: get_unfold)
  have d: "drop (length (requested w)) (requested (snd (get T api location w))) = replicate n ?u"
    by (simp add: n(2))
  have q: "searchParams ?u = query_of T location" using assms(1) by (rule get_url_query)
  have b: "base ?u = base (baseUrl w)" by (simp add: get_url_def searchParams_set_def)
  have h: "href ?u = base (baseUrl w) @ ''?lat='' @ toFixed T 7 (lat location)
                            @ ''&lng='' @ toFixed T 7 (lon location) @ ''&formatted=0''"
    unfolding href_def b search_query_of[OF q assms(2,3)] ..
  have "\<forall>x\<in>{lat location, lon location}. \<exists>ip fp.
               toFixed T 7 x = (if x < 0 then ''-'' else '''') @ ip @ ''.'' @ fp
               \<and> ip \<noteq> [] \<and> set ip \<subseteq> set ''0123456789''
               \<and> length fp = 7 \<and> set fp \<subseteq> set ''0123456789''
               \<and> decimal_value (ip @ fp) = nat \<lfloor>\<bar>x\<bar> * 10 ^ 7 + 1 / 2\<rfloor>"
    using toFixed_7_form[OF assms(2), of T] toFixed_7_form[OF assms(3), of T] by simp
  then show ?thesis unfolding d using n(1) q h by simp
qed

theorem get_request_url_witness:
  "(searchParams (baseUrl fresh_world) = []
      \<or> (\<exists>loc. searchParams (baseUrl fresh_world) = query_of ToString_nat loc))
   \<and> \<bar>lat \<lparr>lat = 6350561961868397 / 140737488355328,
              lon = - (103096182877391 / 1099511627776)\<rparr>\<bar> < 10 ^ 21
   \<and> \<bar>lon \<lparr>lat = 6350561961868397 / 140737488355328,
              lon = - (103096182877391 / 1099511627776)\<rparr>\<bar> < 10 ^ 21
   \<and> map href (requested (snd (get ToString_nat
          (\<lambda>n. Inr \<lparr>results = sample_result ''2024-01-01T06:00:00+00:00'' 39600, status = OK\<rparr>)
          \<lparr>lat = 6350561961868397 / 140737488355328, lon = - (103096182877391 / 1099511627776)\<rparr>
          fresh_world)))
       = [''https://api.sunrise-sunset.org/json?lat=45.1234567&lng=-93.7654321&formatted=0'']"
proof -
  let ?loc = "\<lparr>lat = 6350561961868397 / 140737488355328, lon = - (103096182877391 / 1099511627776)\<rparr>"
  let ?api = "\<lambda>n::nat. Inr \<lparr>results = sample_result ''2024-01-01T06:00:00+00:00'' 39600, status = OK\<rparr>
                :: js_error + SunriseResponse"
  have h1: "searchParams (baseUrl fresh_world) = []
      \<or> (\<exists>loc. searchParams (baseUrl fresh_world) = query_of ToString_nat loc)"
    by (simp add: fresh_world_def initial_baseUrl_def)
  have h2: "\<bar>lat ?loc\<bar> < 10 ^ 21" by simp
  have h3: "\<bar>lon ?loc\<bar> < 10 ^ 21" by simp
  have r: "requested (snd (get ToString_nat ?api ?loc fresh_world))
           = [get_url ToString_nat ?loc initial_baseUrl]"
    by (simp add: get_unfold fresh_world_def sample_result_def)
       (subst get_loop.simps, simp add: Let_def)
  from get_request_url[OF h1 h2 h3, of ?api]
  have "href (get_url ToString_nat ?loc initial_baseUrl)
        = ''https://api.sunrise-sunset.org/json?lat=45.1234567&lng=-93.7654321&formatted=0''"
    unfolding r
    by (simp add: fresh_world_def initial_baseUrl_def toFixed_example_lat toFixed_example_lon)
  with h1 h2 h3 r show ?thesis by simp
qed

text \<open>
  Claim C10. \<^verbatim>\<open>get\<close> builds no URL of its own: it writes the three parameters into the
  module-level \<^verbatim>\<open>baseUrl\<close>, which after the call holds the coordinate of that call (and is
  no longer the URL the module created), and every request of the call was made with the
  object in that state. The same holds when the call has only run up to its first
  \<^verbatim>\<open>await\<close>, which is when the next call of a batch starts.
\<close>

theorem get_mutates_shared_baseUrl:
  "baseUrl (snd (get T api location w)) = get_url T location (baseUrl w)
   \<and> map_of (searchParams (baseUrl (snd (get T api location w)))) ''lat''
       = Some (toFixed T 7 (lat location))
   \<and> map_of (searchParams (baseUrl (snd (get T api location w)))) ''lng''
       = Some (toFixed T 7 (lon location))
   \<and> map_of (searchParams (baseUrl (snd (get T api location w)))) ''formatted'' = Some ''0''
   \<and> baseUrl (snd (get T api location w)) \<noteq> initial_baseUrl
   \<and> set (drop (length (requested w)) (requested (snd (get T api location w))))
       = {baseUrl (snd (get T api location w))}
   \<and> snd (get_start T location w)
       = w\<lparr>baseUrl := get_url T location (baseUrl w),
            requested := requested w @ [get_url T location (baseUrl w)]\<rparr>"
proof -
  let ?u = "get_url T location (baseUrl w)"
  from get_loop_world[of 0 T api "w\<lparr>baseUrl := ?u\<rparr>"]
  obtain n where n: "1 \<le> n" "snd (get T api location w) =
      w\<lparr>baseUrl := ?u, requested := requested w @ replicate n ?u,
        slept := slept w @ replicate (n - 1) 10\<rparr>"
    by (auto simp: get_unfold)
  have b: "baseUrl (snd (get T api location w)) = ?u" by (simp add: n(2))
  have "searchParams ?u \<noteq> []" using get_url_params(1)[of T location "baseUrl w"] by auto
  then have "?u \<noteq> initial_baseUrl" by (auto simp: initial_baseUrl_def)
  moreover have "set (drop (length (requested w)) (requested (snd (get T api location w)))) = {?u}"
    using n(1) by (simp add: n(2))
  moreover have "snd (get_start T location w)
       = w\<lparr>baseUrl := ?u, requested := requested w @ [?u]\<rparr>"
    by (simp add: get_start_get_url get_on_timer_def)
  ultimately show ?thesis unfolding b by (simp add: get_url_params)
qed

section \<open>The batch\<close>

lemma map_Fulfilled_eq [simp]: "map Fulfilled xs = map Fulfilled ys \<longleftrightarrow> xs = ys"
  by (simp add: inj_map_eq_map inj_def)

lemma values_of_map_Fulfilled: "values_of (map Fulfilled vs) = Some vs"
  by (induction vs) auto

lemma values_of_SomeD: "values_of cs = Some vs \<Longrightarrow> cs = map Fulfilled vs"
proof (induction cs arbitrary: vs)
  case Nil
  then show ?case by simp
next
  case (Cons c cs)
  from Cons.prems obtain v vs' where "c = Fulfilled v" "values_of cs = Some vs'" "vs = v # vs'"
    by (cases c) (auto split: option.splits)
  with Cons.IH[of vs'] show ?case by simp
qed

lemma values_of_Some_iff: "values_of cs = Some vs \<longleftrightarrow> cs = map Fulfilled vs"
  using values_of_SomeD values_of_map_Fulfilled by blast

lemma values_of_None_iff: "values_of cs = None \<longleftrightarrow> (\<exists>c\<in>set cs. fulfilled_value c = None)"
  by (induction cs) (auto split: option.splits)

lemma start_calls_calls: "fst (start_calls T locs w) = replicate (length locs) (AwaitResponse 0)"
proof (induction locs arbitrary: w)
  case Nil
  then show ?case by simp
next
  case (Cons l locs)
  obtain c w1 where g: "get_start T l w = (c, w1)" by (cases "get_start T l w")
  then have c: "c = AwaitResponse 0" by (auto simp: get_start_def Let_def)
  obtain cs w2 where s: "start_calls T locs w1 = (cs, w2)" by (cases "start_calls T locs w1")
  with Cons[of w1] have "cs = replicate (length locs) (AwaitResponse 0)" by simp
  with g s c show ?case by simp
qed

lemma main_calls: "calls (main T locs) = replicate (length locs) (AwaitResponse 0)"
  using start_calls_calls[of T locs fresh_world]
  by (auto simp: main_def Let_def on_then_def on_catch_def split: prod.splits sum.splits)

lemma consistent_main: "consistent (main T locs)"
proof (cases locs)
  case Nil
  then show ?thesis
    by (simp add: main_def consistent_def on_then_def on_catch_def findEarliestSunrise_def reduce_def)
next
  case (Cons l ls)
  have "calls (main T locs) = replicate (length locs) (AwaitResponse 0)" by (rule main_calls)
  moreover have "all_promise (main T locs) = None" "stdout (main T locs) = []" "stderr (main T locs) = []"
    using start_calls_calls[of T locs fresh_world] Cons
    by (auto simp: main_def Let_def split: prod.splits)
  ultimately show ?thesis using Cons
    by (auto simp: consistent_def values_of_None_iff)
qed

lemma length_calls_step: "length (calls (step T ev p)) = length (calls p)"
  by (cases ev)
     (auto simp: promise_all_react_def on_then_def on_catch_def Let_def
           split: call.splits prod.splits option.splits sum.splits)

lemma length_calls_run: "length (calls (run T evs p)) = length (calls p)"
  by (induction evs arbitrary: p) (auto simp: length_calls_step)


lemma values_of_None_nth:
  "i < length cs \<Longrightarrow> fulfilled_value (cs ! i) = None \<Longrightarrow> values_of cs = None"
  unfolding values_of_None_iff using nth_mem by blast

lemma no_rejected_update:
  "\<forall>c\<in>set cs. \<not> is_rejected c \<Longrightarrow> \<not> is_rejected c' \<Longrightarrow> \<forall>c\<in>set (cs[i := c']). \<not> is_rejected c"
  using set_update_subset_insert[of cs i c'] by auto

lemma rejected_update:
  assumes "\<exists>j<length cs. cs ! j = Rejected e" and "\<not> is_rejected (cs ! i)"
  shows "\<exists>j<length (cs[i := c']). cs[i := c'] ! j = Rejected e"
proof -
  from assms(1) obtain j where j: "j < length cs" "cs ! j = Rejected e" by blast
  with assms(2) have "j \<noteq> i" by auto
  with j show ?thesis by auto
qed

lemma consistent_timer:
  assumes "consistent p" and "i < length (calls p)" and "calls p ! i = AwaitSleep r"
  shows "consistent (p\<lparr>env := w, calls := (calls p)[i := AwaitResponse r]\<rparr>)"
proof (cases "all_promise p")
  case None
  with assms(1) have n: "\<forall>c\<in>set (calls p). \<not> is_rejected c" "stdout p = []" "stderr p = []"
    by (simp_all add: consistent_def)
  have v: "values_of ((calls p)[i := AwaitResponse r]) = None"
    using assms(2) by (intro values_of_None_nth[of i]) simp_all
  have "\<forall>c\<in>set ((calls p)[i := AwaitResponse r]). \<not> is_rejected c"
    using n(1) by (rule no_rejected_update) simp
  with n(2,3) v None show ?thesis
    by (simp add: consistent_def)
next
  case (Some s)
  show ?thesis
  proof (cases s)
    case (Inl e)
    with Some assms(1) have n: "\<exists>j<length (calls p). calls p ! j = Rejected e" "stdout p = []" "stderr p = [e]"
      by (simp_all add: consistent_def)
    have "\<exists>j<length ((calls p)[i := AwaitResponse r]). (calls p)[i := AwaitResponse r] ! j = Rejected e"
      using n(1) by (rule rejected_update) (simp add: assms(3))
    with n(2,3) Some Inl show ?thesis by (simp add: consistent_def)
  next
    case (Inr vs)
    with Some assms(1) have "values_of (calls p) = Some vs" by (simp add: consistent_def)
    moreover have "values_of (calls p) = None"
      using assms(2) by (rule values_of_None_nth) (simp add: assms(3))
    ultimately show ?thesis by simp
  qed
qed

lemma consistent_response:
  assumes "consistent p" and "i < length (calls p)" and "calls p ! i = AwaitResponse r"
  shows "consistent (promise_all_react i (p\<lparr>env := w, calls := (calls p)[i := c]\<rparr>))"
proof (cases "all_promise p")
  case None
  let ?q = "p\<lparr>env := w, calls := (calls p)[i := c]\<rparr>"
  from None assms(1) have n: "\<forall>c\<in>set (calls p). \<not> is_rejected c" "stdout p = []" "stderr p = []"
    by (simp_all add: consistent_def)
  have ci: "calls ?q ! i = c" using assms(2) by simp
  have nr: "\<forall>c\<in>set (calls ?q). \<not> is_rejected c" if "\<not> is_rejected c"
    using no_rejected_update[OF n(1) that, of i] by simp
  have waiting: "consistent (promise_all_react i ?q)" if "fulfilled_value c = None" "\<not> is_rejected c"
  proof -
    have "values_of (calls ?q) = None"
      using assms(2) that(1) by (intro values_of_None_nth[of i]) simp_all
    moreover have "promise_all_react i ?q = ?q"
      using None ci that by (cases c) (simp_all add: promise_all_react_def)
    ultimately show ?thesis using None n(2,3) nr[OF that(2)] by (simp add: consistent_def)
  qed
  show ?thesis
  proof (cases c)
    case (AwaitResponse x)
    then show ?thesis by (intro waiting) simp_all
  next
    case (AwaitSleep x)
    then show ?thesis by (intro waiting) simp_all
  next
    case (Fulfilled v)
    show ?thesis
    proof (cases "values_of (calls ?q)")
      case vn: None
      then have "promise_all_react i ?q = ?q"
        using None ci Fulfilled by (simp add: promise_all_react_def)
      moreover have "consistent ?q"
        using None n(2,3) vn nr Fulfilled by (simp add: consistent_def)
      ultimately show ?thesis by simp
    next
      case (Some vs)
      then have "promise_all_react i ?q = on_then vs (?q\<lparr>all_promise := Some (Inr vs)\<rparr>)"
        using None ci Fulfilled by (simp add: promise_all_react_def)
      moreover have "consistent (on_then vs (?q\<lparr>all_promise := Some (Inr vs)\<rparr>))"
        using Some n(2,3)
        by (cases "findEarliestSunrise vs") (simp_all add: consistent_def on_then_def on_catch_def)
      ultimately show ?thesis by simp
    qed
  next
    case (Rejected e)
    have "promise_all_react i ?q = on_catch e (?q\<lparr>all_promise := Some (Inl e)\<rparr>)"
      using None ci Rejected by (simp add: promise_all_react_def)
    moreover have "\<exists>j<length (calls ?q). calls ?q ! j = Rejected e"
      using ci assms(2) Rejected by (intro exI[of _ i]) simp
    then have "consistent (on_catch e (?q\<lparr>all_promise := Some (Inl e)\<rparr>))"
      using n(2,3) by (simp add: consistent_def on_catch_def)
    ultimately show ?thesis by simp
  qed
next
  case (Some s)
  let ?q = "p\<lparr>env := w, calls := (calls p)[i := c]\<rparr>"
  have same: "promise_all_react i ?q = ?q" using Some by (simp add: promise_all_react_def)
  show ?thesis
  proof (cases s)
    case (Inl e)
    with Some assms(1) have n: "\<exists>j<length (calls p). calls p ! j = Rejected e" "stdout p = []" "stderr p = [e]"
      by (simp_all add: consistent_def)
    have "\<exists>j<length ((calls p)[i := c]). (calls p)[i := c] ! j = Rejected e"
      using n(1) by (rule rejected_update) (simp add: assms(3))
    with n(2,3) Some Inl show ?thesis unfolding same by (simp add: consistent_def)
  next
    case (Inr vs)
    with Some assms(1) have "values_of (calls p) = Some vs" by (simp add: consistent_def)
    moreover have "values_of (calls p) = None"
      using assms(2) by (rule values_of_None_nth) (simp add: assms(3))
    ultimately show ?thesis by simp
  qed
qed

lemma consistent_step: "consistent p \<Longrightarrow> consistent (step T ev p)"
proof (cases ev)
  case (Response i r)
  assume "consistent p"
  then show ?thesis using Response
    by (cases "i < length (calls p)"; cases "calls p ! i")
       (simp_all add: consistent_response split: prod.splits)
next
  case (Timer i)
  assume "consistent p"
  then show ?thesis using Timer
    by (cases "i < length (calls p)"; cases "calls p ! i")
       (simp_all add: consistent_timer get_on_timer_def)
qed

lemma consistent_run: "consistent p \<Longrightarrow> consistent (run T evs p)"
  by (induction evs arbitrary: p) (auto simp: consistent_step)


lemma run_append: "run T (xs @ ys) p = run T ys (run T xs p)"
  by (induction xs arbitrary: p) auto

lemma consistent_batch: "consistent (run T evs (main T locations))"
  by (intro consistent_run consistent_main)

lemma step_settled:
  assumes "all_promise p = Some s"
  shows "all_promise (step T ev p) = Some s \<and> stdout (step T ev p) = stdout p
         \<and> stderr (step T ev p) = stderr p"
proof (cases ev)
  case (Response i r)
  show ?thesis
  proof (cases "i < length (calls p)")
    case True
    then show ?thesis using assms Response
      by (cases "calls p ! i") (simp_all add: promise_all_react_def split: prod.splits)
  next
    case False
    then show ?thesis using assms Response by simp
  qed
next
  case (Timer i)
  show ?thesis
  proof (cases "i < length (calls p)")
    case True
    then show ?thesis using assms Timer
      by (cases "calls p ! i") (simp_all add: get_on_timer_def)
  next
    case False
    then show ?thesis using assms Timer by simp
  qed
qed

lemma run_settled:
  "all_promise p = Some s \<Longrightarrow>
     all_promise (run T evs p) = Some s \<and> stdout (run T evs p) = stdout p
     \<and> stderr (run T evs p) = stderr p"
proof (induction evs arbitrary: p)
  case Nil
  then show ?case by simp
next
  case (Cons ev evs)
  from step_settled[OF Cons.prems, of T ev] Cons.IH[of "step T ev p"]
  show ?case by simp
qed

lemma step_calls_other:
  "\<exists>i. \<forall>k. k \<noteq> i \<longrightarrow> calls (step T ev p) ! k = calls p ! k"
proof (cases ev)
  case (Response i r)
  have "\<forall>k. k \<noteq> i \<longrightarrow> calls (step T ev p) ! k = calls p ! k"
    using Response
    by (cases "i < length (calls p)"; cases "calls p ! i")
       (auto simp: promise_all_react_def on_then_def on_catch_def
             split: prod.splits option.splits call.splits sum.splits)
  then show ?thesis ..
next
  case (Timer i)
  have "\<forall>k. k \<noteq> i \<longrightarrow> calls (step T ev p) ! k = calls p ! k"
    using Timer
    by (cases "i < length (calls p)"; cases "calls p ! i") (auto simp: get_on_timer_def)
  then show ?thesis ..
qed

lemma rejected_settles:
  assumes "consistent p" and "j < length (calls p)" and "is_rejected (calls p ! j)"
  shows "\<exists>e. all_promise p = Some (Inl e) \<and> stdout p = [] \<and> stderr p = [e]"
proof (cases "all_promise p")
  case None
  with assms(1) have "\<forall>c\<in>set (calls p). \<not> is_rejected c" by (simp add: consistent_def)
  with assms(2,3) show ?thesis using nth_mem by blast
next
  case (Some s)
  show ?thesis
  proof (cases s)
    case (Inl e)
    with Some assms(1) show ?thesis by (simp add: consistent_def)
  next
    case (Inr vs)
    with Some assms(1) have "calls p = map Fulfilled vs"
      by (simp add: consistent_def values_of_Some_iff)
    with assms(2,3) show ?thesis by simp
  qed
qed

lemma first_rejection:
  assumes "\<forall>c\<in>set (calls p). \<not> is_rejected c"
    and "\<exists>c\<in>set (calls (run T evs p)). is_rejected c"
  shows "\<exists>es1 ev es2. evs = es1 @ ev # es2
           \<and> (\<forall>c\<in>set (calls (run T es1 p)). \<not> is_rejected c)
           \<and> (\<exists>c\<in>set (calls (run T (es1 @ [ev]) p)). is_rejected c)"
  using assms(2)
proof (induction evs rule: rev_induct)
  case Nil
  with assms(1) show ?case by simp
next
  case (snoc ev evs)
  show ?case
  proof (cases "\<exists>c\<in>set (calls (run T evs p)). is_rejected c")
    case True
    from snoc.IH[OF this] obtain es1 ev' es2 where
      "evs = es1 @ ev' # es2" "\<forall>c\<in>set (calls (run T es1 p)). \<not> is_rejected c"
      "\<exists>c\<in>set (calls (run T (es1 @ [ev']) p)). is_rejected c" by blast
    then have "evs @ [ev] = es1 @ ev' # (es2 @ [ev])
           \<and> (\<forall>c\<in>set (calls (run T es1 p)). \<not> is_rejected c)
           \<and> (\<exists>c\<in>set (calls (run T (es1 @ [ev']) p)). is_rejected c)" by simp
    then show ?thesis by blast
  next
    case False
    with snoc.prems have "evs @ [ev] = evs @ ev # []
           \<and> (\<forall>c\<in>set (calls (run T evs p)). \<not> is_rejected c)
           \<and> (\<exists>c\<in>set (calls (run T (evs @ [ev]) p)). is_rejected c)" by simp
    then show ?thesis by blast
  qed
qed


lemma length_calls_batch: "length (calls (run T evs (main T locations))) = length locations"
  by (simp add: length_calls_run main_calls)

lemma start_calls_requested:
  assumes "searchParams (baseUrl w) = [] \<or> (\<exists>loc. searchParams (baseUrl w) = query_of T loc)"
  shows "map searchParams (requested (snd (start_calls T locs w)))
           = map searchParams (requested w) @ map (query_of T) locs"
  using assms
proof (induction locs arbitrary: w)
  case Nil
  then show ?case by simp
next
  case (Cons l locs)
  let ?u = "get_url T l (baseUrl w)"
  let ?w1 = "w\<lparr>baseUrl := ?u, requested := requested w @ [?u]\<rparr>"
  have g: "get_start T l w = (AwaitResponse 0, ?w1)"
    by (simp add: get_start_def get_url_def Let_def)
  have q: "searchParams ?u = query_of T l" using Cons.prems by (rule get_url_query)
  then have "searchParams (baseUrl ?w1) = [] \<or> (\<exists>loc. searchParams (baseUrl ?w1) = query_of T loc)"
    by auto
  from Cons.IH[OF this] q show ?case
    by (simp add: g split_beta)
qed

lemma requested_step: "\<exists>ys. requested (env (step T ev p)) = requested (env p) @ ys"
proof (cases ev)
  case (Response i r)
  have e: "env (promise_all_react i q) = env q" for q
    by (simp add: promise_all_react_def on_then_def on_catch_def
             split: option.splits call.splits sum.splits)
  have "requested (snd (get_on_response T n r w)) = requested w" for n w
    by (simp add: get_on_response_def split: sum.splits)
  then have "requested (env (step T ev p)) = requested (env p)"
    using Response
    by (cases "i < length (calls p)"; cases "calls p ! i")
       (simp_all add: e split: prod.splits, (metis snd_conv)+)
  then show ?thesis by simp
next
  case (Timer i)
  then show ?thesis
    by (cases "i < length (calls p)"; cases "calls p ! i") (simp_all add: get_on_timer_def)
qed

lemma requested_run: "\<exists>ys. requested (env (run T evs p)) = requested (env p) @ ys"
proof (induction evs arbitrary: p)
  case Nil
  then show ?case by simp
next
  case (Cons ev evs)
  from requested_step[of T ev p] obtain ys where
    "requested (env (step T ev p)) = requested (env p) @ ys" by blast
  moreover from Cons[of "step T ev p"] obtain zs where
    "requested (env (run T evs (step T ev p))) = requested (env (step T ev p)) @ zs" by blast
  ultimately show ?case by simp
qed

lemma requested_main: "map searchParams (requested (env (main T locations))) = map (query_of T) locations"
proof -
  let ?w0 = fresh_world
  have "searchParams (baseUrl ?w0) = [] \<or> (\<exists>loc. searchParams (baseUrl ?w0) = query_of T loc)"
    by (simp add: fresh_world_def initial_baseUrl_def)
  from start_calls_requested[OF this, of locations]
  have "map searchParams (requested (snd (start_calls T locations ?w0))) = map (query_of T) locations"
    by (simp add: fresh_world_def)
  moreover have "env (main T locations) = snd (start_calls T locations ?w0)"
    by (simp add: main_def on_then_def on_catch_def Let_def split: prod.splits sum.splits)
  ultimately show ?thesis by simp
qed

lemma first_requests_batch:
  assumes "i < length locations"
  shows "searchParams (requested (env (run T evs (main T locations))) ! i) = query_of T (locations ! i)"
proof -
  from requested_run[of T evs "main T locations"] obtain ys where
    ys: "requested (env (run T evs (main T locations))) = requested (env (main T locations)) @ ys"
    by blast
  have len: "length (requested (env (main T locations))) = length locations"
    using requested_main[of T locations] by (metis length_map)
  with assms have "requested (env (run T evs (main T locations))) ! i
                   = requested (env (main T locations)) ! i"
    unfolding ys by (simp add: nth_append)
  moreover have "searchParams (requested (env (main T locations)) ! i)
                 = map searchParams (requested (env (main T locations))) ! i"
    using assms len by simp
  ultimately show ?thesis using assms by (simp add: requested_main)
qed

lemma env_promise_all_react: "env (promise_all_react i q) = env q"
  by (simp add: promise_all_react_def on_then_def on_catch_def
           split: option.splits call.splits sum.splits)

lemma step_retry_request:
  "env (step T ev p) = env p
   \<or> (\<exists>d. env (step T ev p) = (env p)\<lparr>slept := slept (env p) @ [d]\<rparr>)
   \<or> env (step T ev p) = (env p)\<lparr>requested := requested (env p) @ [baseUrl (env p)]\<rparr>"
proof (cases ev)
  case (Response i r)
  have g: "snd (get_on_response T n r w) = w
        \<or> (\<exists>d. snd (get_on_response T n r w) = w\<lparr>slept := slept w @ [d]\<rparr>)" for n w
    by (cases r) (auto simp: get_on_response_def)
  show ?thesis
  proof (cases "i < length (calls p)")
    case True
    show ?thesis
    proof (cases "calls p ! i")
      case (AwaitResponse n)
      with True Response have "env (step T ev p) = snd (get_on_response T n r (env p))"
        by (simp add: env_promise_all_react split_beta)
      with g[of n "env p"] show ?thesis by auto
    qed (use True Response in simp_all)
  next
    case False
    with Response show ?thesis by simp
  qed
next
  case (Timer i)
  then show ?thesis
    by (cases "i < length (calls p)"; cases "calls p ! i") (simp_all add: get_on_timer_def)
qed

lemma run_retry_requests:
  "baseUrl (env (run T evs p)) = baseUrl (env p)
   \<and> (\<exists>n. requested (env (run T evs p)) = requested (env p) @ replicate n (baseUrl (env p)))"
proof (induction evs arbitrary: p)
  case Nil
  then show ?case by simp
next
  case (Cons ev evs)
  from step_retry_request[of T ev p]
  have s: "baseUrl (env (step T ev p)) = baseUrl (env p)
         \<and> (\<exists>m. requested (env (step T ev p)) = requested (env p) @ replicate m (baseUrl (env p)))"
  proof (elim disjE exE)
    assume "env (step T ev p) = env p"
    then have "baseUrl (env (step T ev p)) = baseUrl (env p)
       \<and> requested (env (step T ev p)) = requested (env p) @ replicate 0 (baseUrl (env p))" by simp
    then show ?thesis by blast
  next
    fix d assume "env (step T ev p) = (env p)\<lparr>slept := slept (env p) @ [d]\<rparr>"
    then have "baseUrl (env (step T ev p)) = baseUrl (env p)
       \<and> requested (env (step T ev p)) = requested (env p) @ replicate 0 (baseUrl (env p))" by simp
    then show ?thesis by blast
  next
    assume "env (step T ev p) = (env p)\<lparr>requested := requested (env p) @ [baseUrl (env p)]\<rparr>"
    then have "baseUrl (env (step T ev p)) = baseUrl (env p)
       \<and> requested (env (step T ev p)) = requested (env p) @ replicate 1 (baseUrl (env p))" by simp
    then show ?thesis by blast
  qed
  then obtain m where m: "requested (env (step T ev p)) = requested (env p) @ replicate m (baseUrl (env p))"
    by blast
  from Cons[of "step T ev p"] obtain n where
    n: "baseUrl (env (run T evs (step T ev p))) = baseUrl (env (step T ev p))"
       "requested (env (run T evs (step T ev p)))
          = requested (env (step T ev p)) @ replicate n (baseUrl (env (step T ev p)))"
    by blast
  have "requested (env (run T (ev # evs) p)) = requested (env p) @ replicate (m + n) (baseUrl (env p))"
    using m n s by (simp add: replicate_add)
  then show ?case using n(1) s by auto
qed

lemma start_calls_baseUrl:
  assumes "searchParams (baseUrl w) = [] \<or> (\<exists>loc. searchParams (baseUrl w) = query_of T loc)"
    and "locs \<noteq> []"
  shows "searchParams (baseUrl (snd (start_calls T locs w))) = query_of T (last locs)"
  using assms
proof (induction locs arbitrary: w)
  case Nil
  then show ?case by simp
next
  case (Cons l locs)
  let ?u = "get_url T l (baseUrl w)"
  let ?w1 = "w\<lparr>baseUrl := ?u, requested := requested w @ [?u]\<rparr>"
  have g: "get_start T l w = (AwaitResponse 0, ?w1)"
    by (simp add: get_start_def get_url_def Let_def)
  have q: "searchParams ?u = query_of T l" using Cons.prems(1) by (rule get_url_query)
  show ?case
  proof (cases "locs = []")
    case True
    then show ?thesis using q by (simp add: g)
  next
    case False
    from q have "searchParams (baseUrl ?w1) = [] \<or> (\<exists>loc. searchParams (baseUrl ?w1) = query_of T loc)"
      by auto
    from Cons.IH[OF this False] False show ?thesis by (simp add: g split_beta)
  qed
qed

lemma env_main: "env (main T locations) = snd (start_calls T locations fresh_world)"
  by (simp add: main_def on_then_def on_catch_def Let_def split: prod.splits sum.splits)

text \<open>
  In the batch the module-level URL holds the coordinate of the last location once the
  calls have started, and no event changes it: the first request of call \<open>i\<close> carries
  the query of location \<open>i\<close>, and every later request, the retries of whatever call,
  carries the query of the last location.
\<close>

lemma batch_retries_use_last_location:
  assumes "locations \<noteq> []"
  shows "\<exists>n. map searchParams (requested (env (run T evs (main T locations))))
              = map (query_of T) locations @ replicate n (query_of T (last locations))"
proof -
  let ?m = "main T locations"
  have i: "searchParams (baseUrl fresh_world) = []
           \<or> (\<exists>loc. searchParams (baseUrl fresh_world) = query_of T loc)"
    by (simp add: fresh_world_def initial_baseUrl_def)
  have b: "searchParams (baseUrl (env ?m)) = query_of T (last locations)"
    unfolding env_main using i assms by (rule start_calls_baseUrl)
  from run_retry_requests[of T evs ?m] obtain n where
    "requested (env (run T evs ?m)) = requested (env ?m) @ replicate n (baseUrl (env ?m))"
    by blast
  then have "map searchParams (requested (env (run T evs ?m)))
             = map (query_of T) locations @ replicate n (query_of T (last locations))"
    by (simp add: requested_main b)
  then show ?thesis ..
qed

text \<open>So every request of a batch carries the query of one of its locations.\<close>

lemma batch_requests_are_queries:
  assumes "locations \<noteq> []"
    and "u \<in> set (requested (env (run T evs (main T locations))))"
  shows "\<exists>loc\<in>set locations. searchParams u = query_of T loc"
proof -
  from batch_retries_use_last_location[OF assms(1), of T evs] obtain n where
    n: "map searchParams (requested (env (run T evs (main T locations))))
        = map (query_of T) locations @ replicate n (query_of T (last locations))"
    by blast
  from assms(2) have "searchParams u
      \<in> set (map searchParams (requested (env (run T evs (main T locations)))))"
    by simp
  then have "searchParams u \<in> query_of T ` set locations \<or> searchParams u = query_of T (last locations)"
    unfolding n by (auto split: if_splits)
  moreover have "last locations \<in> set locations" using assms(1) by simp
  ultimately show ?thesis by auto
qed

lemma main_two:
  "calls (main T [a, b]) = [AwaitResponse 0, AwaitResponse 0]"
  "all_promise (main T [a, b]) = None"
  "stdout (main T [a, b]) = []"
  "stderr (main T [a, b]) = []"
  by (simp_all add: main_def get_start_def Let_def)

text \<open>
  Claim C5. When a call of \<^verbatim>\<open>get\<close> is rejected, there is a first event at which a call
  is rejected; it rejects one call only, and the promise of \<^verbatim>\<open>Promise.all\<close> is rejected
  with the error of that call, whatever the other calls do before or after. The handler
  of \<^verbatim>\<open>.catch\<close> writes that error to the error stream, and nothing is written to the
  standard output.
\<close>

theorem batch_fails_with_first_error:
  assumes "\<exists>c\<in>set (calls (run T evs (main T locations))). is_rejected c"
  shows "\<exists>es1 ev es2 j e. evs = es1 @ ev # es2
           \<and> (\<forall>c\<in>set (calls (run T es1 (main T locations))). \<not> is_rejected c)
           \<and> j < length locations
           \<and> calls (run T (es1 @ [ev]) (main T locations)) ! j = Rejected e
           \<and> (\<forall>k<length locations. k \<noteq> j \<longrightarrow>
                 \<not> is_rejected (calls (run T (es1 @ [ev]) (main T locations)) ! k))
           \<and> all_promise (run T evs (main T locations)) = Some (Inl e)
           \<and> stdout (run T evs (main T locations)) = []
           \<and> stderr (run T evs (main T locations)) = [e]"
proof -
  let ?m = "main T locations"
  have "\<forall>c\<in>set (calls ?m). \<not> is_rejected c" by (simp add: main_calls)
  from first_rejection[OF this assms] obtain es1 ev es2 where
    evs: "evs = es1 @ ev # es2"
    and before: "\<forall>c\<in>set (calls (run T es1 ?m)). \<not> is_rejected c"
    and after: "\<exists>c\<in>set (calls (run T (es1 @ [ev]) ?m)). is_rejected c"
    by blast
  let ?p0 = "run T es1 ?m"
  let ?p1 = "run T (es1 @ [ev]) ?m"
  have p1: "?p1 = step T ev ?p0" by (simp add: run_append)
  have len0: "length (calls ?p0) = length locations" by (rule length_calls_batch)
  have len1: "length (calls ?p1) = length locations" by (rule length_calls_batch)
  have c1: "consistent ?p1" by (rule consistent_batch)
  from after obtain j0 where "j0 < length (calls ?p1)" "is_rejected (calls ?p1 ! j0)"
    by (auto simp: in_set_conv_nth)
  from rejected_settles[OF c1 this] obtain e where
    e: "all_promise ?p1 = Some (Inl e)" "stdout ?p1 = []" "stderr ?p1 = [e]" by blast
  from c1 e(1) have "\<exists>j<length (calls ?p1). calls ?p1 ! j = Rejected e"
    by (simp add: consistent_def)
  then obtain j where j: "j < length (calls ?p1)" "calls ?p1 ! j = Rejected e"
    by blast
  from step_calls_other[of T ev ?p0] obtain i where
    i: "\<forall>k. k \<noteq> i \<longrightarrow> calls ?p1 ! k = calls ?p0 ! k" unfolding p1 by blast
  have unrej: "\<not> is_rejected (calls ?p1 ! k)" if "k < length locations" "k \<noteq> i" for k
  proof -
    from that i have "calls ?p1 ! k = calls ?p0 ! k" by simp
    moreover from that(1) len0 have "calls ?p0 ! k \<in> set (calls ?p0)" by simp
    ultimately show ?thesis using before by simp
  qed
  have "j = i"
  proof (rule ccontr)
    assume "j \<noteq> i"
    with j(1) len1 unrej[of j] have "\<not> is_rejected (calls ?p1 ! j)" by simp
    with j(2) show False by simp
  qed
  have fin: "run T evs ?m = run T es2 ?p1" by (simp add: evs run_append)
  from run_settled[OF e(1), of T es2] e(2,3)
  have "all_promise (run T evs ?m) = Some (Inl e)" "stdout (run T evs ?m) = []"
       "stderr (run T evs ?m) = [e]"
    unfolding fin by simp_all
  moreover have "j < length locations" using j(1) len1 by simp
  moreover have "\<forall>k<length locations. k \<noteq> j \<longrightarrow> \<not> is_rejected (calls ?p1 ! k)"
    using unrej \<open>j = i\<close> by simp
  ultimately show ?thesis
    using evs before j(2)
    by (intro exI[of _ es1] exI[of _ ev] exI[of _ es2] exI[of _ j] exI[of _ e] conjI)
qed

theorem batch_fails_with_first_error_witness:
  "(\<exists>c\<in>set (calls (run ToString_nat
        [Response 1 (Inr \<lparr>results = sample_result '''' 0, status = INVALID_REQUEST\<rparr>),
         Response 0 (Inr \<lparr>results = sample_result ''2024-01-01T06:00:00+00:00'' 39600, status = OK\<rparr>)]
        (main ToString_nat [\<lparr>lat = 1, lon = 2\<rparr>, \<lparr>lat = 3, lon = 4\<rparr>]))).
      is_rejected c)
   \<and> all_promise (run ToString_nat
        [Response 1 (Inr \<lparr>results = sample_result '''' 0, status = INVALID_REQUEST\<rparr>),
         Response 0 (Inr \<lparr>results = sample_result ''2024-01-01T06:00:00+00:00'' 39600, status = OK\<rparr>)]
        (main ToString_nat [\<lparr>lat = 1, lon = 2\<rparr>, \<lparr>lat = 3, lon = 4\<rparr>]))
      = Some (Inl (Error ''Sunrise API status: INVALID_REQUEST  Day length: 0''))
   \<and> stdout (run ToString_nat
        [Response 1 (Inr \<lparr>results = sample_result '''' 0, status = INVALID_REQUEST\<rparr>),
         Response 0 (Inr \<lparr>results = sample_result ''2024-01-01T06:00:00+00:00'' 39600, status = OK\<rparr>)]
        (main ToString_nat [\<lparr>lat = 1, lon = 2\<rparr>, \<lparr>lat = 3, lon = 4\<rparr>])) = []"
proof -
  let ?evs = "[Response 1 (Inr \<lparr>results = sample_result '''' 0, status = INVALID_REQUEST\<rparr>),
         Response 0 (Inr \<lparr>results = sample_result ''2024-01-01T06:00:00+00:00'' 39600, status = OK\<rparr>)]"
  let ?locs = "[\<lparr>lat = 1, lon = 2\<rparr>, \<lparr>lat = 3, lon = 4\<rparr>]"
  let ?p = "run ToString_nat ?evs (main ToString_nat ?locs)"
  have d: "ToString_nat 0 = ''0''" by (simp add: ToString_nat_def digits.simps)
  have cs: "calls ?p = [Fulfilled (sample_result ''2024-01-01T06:00:00+00:00'' 39600),
                        Rejected (Error ''Sunrise API status: INVALID_REQUEST  Day length: 0'')]"
    by (simp add: main_two get_on_response_def promise_all_react_def on_then_def on_catch_def
          sample_result_def d)
  have h: "\<exists>c\<in>set (calls ?p). is_rejected c"
    unfolding cs by simp
  from batch_fails_with_first_error[OF h] obtain j e where
    e: "all_promise ?p = Some (Inl e)" "stdout ?p = []" "stderr ?p = [e]"
    by auto
  have "consistent ?p" by (rule consistent_batch)
  with e(1) obtain i where "i < length (calls ?p)" "calls ?p ! i = Rejected e"
    by (auto simp: consistent_def)
  then have "e = Error ''Sunrise API status: INVALID_REQUEST  Day length: 0''"
    unfolding cs by (auto simp: less_Suc_eq)
  with e h show ?thesis by simp
qed

text \<open>
  When every call of \<^verbatim>\<open>get\<close> is fulfilled, in whatever order the events came, the
  promise of \<^verbatim>\<open>Promise.all\<close> is fulfilled with the values of the calls in the order in
  which the calls were started: the value at index \<open>i\<close> is the value of call \<open>i\<close>, whose
  first request carries the query of the location at index \<open>i\<close>.
\<close>

lemma batch_results_in_call_order:
  assumes "\<forall>c\<in>set (calls (run T evs (main T locations))). fulfilled_value c \<noteq> None"
  shows "\<exists>vs. all_promise (run T evs (main T locations)) = Some (Inr vs)
           \<and> length vs = length locations
           \<and> (\<forall>i<length locations.
                 calls (run T evs (main T locations)) ! i = Fulfilled (vs ! i)
                 \<and> searchParams (requested (env (run T evs (main T locations))) ! i)
                     = query_of T (locations ! i))"
proof -
  let ?p = "run T evs (main T locations)"
  have c: "consistent ?p" by (rule consistent_batch)
  have len: "length (calls ?p) = length locations" by (rule length_calls_batch)
  from assms have nn: "values_of (calls ?p) \<noteq> None" by (simp add: values_of_None_iff)
  then obtain vs0 where vs0: "values_of (calls ?p) = Some vs0" by blast
  then have cs: "calls ?p = map Fulfilled vs0" by (simp add: values_of_Some_iff)
  have "all_promise ?p = Some (Inr vs0)"
  proof (cases "all_promise ?p")
    case None
    with c nn show ?thesis by (simp add: consistent_def)
  next
    case (Some s)
    show ?thesis
    proof (cases s)
      case (Inl e)
      with Some c have "\<exists>j<length (calls ?p). calls ?p ! j = Rejected e"
        by (simp add: consistent_def)
      with cs show ?thesis by auto
    next
      case (Inr vs)
      with Some c vs0 show ?thesis by (simp add: consistent_def)
    qed
  qed
  moreover have l: "length vs0 = length locations" using cs len by (metis length_map)
  moreover have "\<forall>i<length locations. calls ?p ! i = Fulfilled (vs0 ! i)
                   \<and> searchParams (requested (env ?p) ! i) = query_of T (locations ! i)"
    using cs l by (simp add: first_requests_batch)
  ultimately show ?thesis by blast
qed

lemma batch_results_in_call_order_example:
  "calls (run ToString_nat
        [Response 1 (Inr \<lparr>results = sample_result ''2024-01-01T05:30:00+00:00'' 39601, status = OK\<rparr>),
         Response 0 (Inr \<lparr>results = sample_result ''2024-01-01T06:00:00+00:00'' 39600, status = OK\<rparr>)]
        (main ToString_nat [\<lparr>lat = 1, lon = 2\<rparr>, \<lparr>lat = 3, lon = 4\<rparr>]))
      = [Fulfilled (sample_result ''2024-01-01T06:00:00+00:00'' 39600),
         Fulfilled (sample_result ''2024-01-01T05:30:00+00:00'' 39601)]
   \<and> all_promise (run ToString_nat
        [Response 1 (Inr \<lparr>results = sample_result ''2024-01-01T05:30:00+00:00'' 39601, status = OK\<rparr>),
         Response 0 (Inr \<lparr>results = sample_result ''2024-01-01T06:00:00+00:00'' 39600, status = OK\<rparr>)]
        (main ToString_nat [\<lparr>lat = 1, lon = 2\<rparr>, \<lparr>lat = 3, lon = 4\<rparr>]))
      = Some (Inr [sample_result ''2024-01-01T06:00:00+00:00'' 39600,
                   sample_result ''2024-01-01T05:30:00+00:00'' 39601])"
proof -
  let ?evs = "[Response 1 (Inr \<lparr>results = sample_result ''2024-01-01T05:30:00+00:00'' 39601, status = OK\<rparr>),
         Response 0 (Inr \<lparr>results = sample_result ''2024-01-01T06:00:00+00:00'' 39600, status = OK\<rparr>)]"
  let ?locs = "[\<lparr>lat = 1, lon = 2\<rparr>, \<lparr>lat = 3, lon = 4\<rparr>]"
  let ?p = "run ToString_nat ?evs (main ToString_nat ?locs)"
  have cs: "calls ?p = [Fulfilled (sample_result ''2024-01-01T06:00:00+00:00'' 39600),
                        Fulfilled (sample_result ''2024-01-01T05:30:00+00:00'' 39601)]"
    by (simp add: main_two get_on_response_def promise_all_react_def on_then_def on_catch_def
          sample_result_def findEarliestSunrise_def reduce_def)
  have h: "\<forall>c\<in>set (calls ?p). fulfilled_value c \<noteq> None"
    unfolding cs by simp
  from batch_results_in_call_order[OF h] obtain vs where
    vs: "all_promise ?p = Some (Inr vs)" "length vs = 2"
        "\<forall>i<2. calls ?p ! i = Fulfilled (vs ! i)"
    by auto
  from vs(3) have "calls ?p ! 0 = Fulfilled (vs ! 0)" "calls ?p ! 1 = Fulfilled (vs ! 1)"
    by simp_all
  then have "vs ! 0 = sample_result ''2024-01-01T06:00:00+00:00'' 39600"
            "vs ! 1 = sample_result ''2024-01-01T05:30:00+00:00'' 39601"
    unfolding cs by simp_all
  with vs(2) have "vs = [sample_result ''2024-01-01T06:00:00+00:00'' 39600,
                   sample_result ''2024-01-01T05:30:00+00:00'' 39601]"
    by (cases vs; cases "tl vs") auto
  with vs(1) cs show ?thesis by simp
qed

lemma toFixed_small_examples:
  "toFixed T 7 1 = ''1.0000000''" "toFixed T 7 2 = ''2.0000000''"
  "toFixed T 7 3 = ''3.0000000''" "toFixed T 7 4 = ''4.0000000''"
proof -
  have d: "digits 10000000 = ''10000000''" "digits 20000000 = ''20000000''"
          "digits 30000000 = ''30000000''" "digits 40000000 = ''40000000''"
    by (simp_all add: digits.simps)
  show "toFixed T 7 1 = ''1.0000000''" "toFixed T 7 2 = ''2.0000000''"
       "toFixed T 7 3 = ''3.0000000''" "toFixed T 7 4 = ''4.0000000''"
    by (simp_all add: toFixed_def Let_def floor_rat_numeral d)
qed

lemma main_two_requests:
  "map searchParams (requested (env (main T [\<lparr>lat = 1, lon = 2\<rparr>, \<lparr>lat = 3, lon = 4\<rparr>])))
     = [[(''lat'', ''1.0000000''), (''lng'', ''2.0000000''), (''formatted'', ''0'')],
        [(''lat'', ''3.0000000''), (''lng'', ''4.0000000''), (''formatted'', ''0'')]]"
  "searchParams (baseUrl (env (main T [\<lparr>lat = 1, lon = 2\<rparr>, \<lparr>lat = 3, lon = 4\<rparr>])))
     = [(''lat'', ''3.0000000''), (''lng'', ''4.0000000''), (''formatted'', ''0'')]"
proof -
  let ?locs = "[\<lparr>lat = 1, lon = 2\<rparr>, \<lparr>lat = 3, lon = 4\<rparr>]"
  show "map searchParams (requested (env (main T ?locs)))
     = [[(''lat'', ''1.0000000''), (''lng'', ''2.0000000''), (''formatted'', ''0'')],
        [(''lat'', ''3.0000000''), (''lng'', ''4.0000000''), (''formatted'', ''0'')]]"
    using requested_main[of T ?locs] by (simp add: query_of_def toFixed_small_examples)
  have "searchParams (baseUrl (snd (start_calls T ?locs fresh_world))) = query_of T (last ?locs)"
    by (rule start_calls_baseUrl) (simp_all add: fresh_world_def initial_baseUrl_def)
  then show "searchParams (baseUrl (env (main T ?locs)))
     = [(''lat'', ''3.0000000''), (''lng'', ''4.0000000''), (''formatted'', ''0'')]"
    unfolding env_main[symmetric] by (simp add: query_of_def toFixed_small_examples)
qed

text \<open>
  Claim C6. The claim fails on the code when a call retries. The value of call \<open>i\<close> is
  the answer to its last request, and a request after the first one is made with the
  module-level URL as the start of the last call left it. With the locations \<open>(1, 2)\<close>
  and \<open>(3, 4)\<close>, when the first answer to call 0 has a zero day length, the retry of
  call 0 is the third request of the process and carries \<^verbatim>\<open>lat=3.0000000&lng=4.0000000\<close>;
  call 0 is fulfilled with the answer to it, and the promise of \<^verbatim>\<open>Promise.all\<close> is
  fulfilled with that record at index 0, the index of the location \<open>(1, 2)\<close>.
\<close>

theorem batch_retry_record_of_other_location:
  "calls (run ToString_nat
      [Response 0 (Inr \<lparr>results = sample_result ''2024-01-01T06:00:00+00:00'' 0, status = OK\<rparr>),
       Timer 0]
      (main ToString_nat [\<lparr>lat = 1, lon = 2\<rparr>, \<lparr>lat = 3, lon = 4\<rparr>]))
     = [AwaitResponse 1, AwaitResponse 0]
   \<and> map searchParams (requested (env (run ToString_nat
      [Response 0 (Inr \<lparr>results = sample_result ''2024-01-01T06:00:00+00:00'' 0, status = OK\<rparr>),
       Timer 0]
      (main ToString_nat [\<lparr>lat = 1, lon = 2\<rparr>, \<lparr>lat = 3, lon = 4\<rparr>]))))
     = [[(''lat'', ''1.0000000''), (''lng'', ''2.0000000''), (''formatted'', ''0'')],
        [(''lat'', ''3.0000000''), (''lng'', ''4.0000000''), (''formatted'', ''0'')],
        [(''lat'', ''3.0000000''), (''lng'', ''4.0000000''), (''formatted'', ''0'')]]
   \<and> calls (run ToString_nat
      [Response 0 (Inr \<lparr>results = sample_result ''2024-01-01T06:00:00+00:00'' 0, status = OK\<rparr>),
       Timer 0,
       Response 0 (Inr \<lparr>results = sample_result ''2024-01-01T07:00:00+00:00'' 39600, status = OK\<rparr>),
       Response 1 (Inr \<lparr>results = sample_result ''2024-01-01T05:30:00+00:00'' 39601, status = OK\<rparr>)]
      (main ToString_nat [\<lparr>lat = 1, lon = 2\<rparr>, \<lparr>lat = 3, lon = 4\<rparr>]))
     = [Fulfilled (sample_result ''2024-01-01T07:00:00+00:00'' 39600),
        Fulfilled (sample_result ''2024-01-01T05:30:00+00:00'' 39601)]
   \<and> all_promise (run ToString_nat
      [Response 0 (Inr \<lparr>results = sample_result ''2024-01-01T06:00:00+00:00'' 0, status = OK\<rparr>),
       Timer 0,
       Response 0 (Inr \<lparr>results = sample_result ''2024-01-01T07:00:00+00:00'' 39600, status = OK\<rparr>),
       Response 1 (Inr \<lparr>results = sample_result ''2024-01-01T05:30:00+00:00'' 39601, status = OK\<rparr>)]
      (main ToString_nat [\<lparr>lat = 1, lon = 2\<rparr>, \<lparr>lat = 3, lon = 4\<rparr>]))
     = Some (Inr [sample_result ''2024-01-01T07:00:00+00:00'' 39600,
                  sample_result ''2024-01-01T05:30:00+00:00'' 39601])
   \<and> map searchParams (requested (env (run ToString_nat
      [Response 0 (Inr \<lparr>results = sample_result ''2024-01-01T06:00:00+00:00'' 0, status = OK\<rparr>),
       Timer 0,
       Response 0 (Inr \<lparr>results = sample_result ''2024-01-01T07:00:00+00:00'' 39600, status = OK\<rparr>),
       Response 1 (Inr \<lparr>results = sample_result ''2024-01-01T05:30:00+00:00'' 39601, status = OK\<rparr>)]
      (main ToString_nat [\<lparr>lat = 1, lon = 2\<rparr>, \<lparr>lat = 3, lon = 4\<rparr>]))))
     = [[(''lat'', ''1.0000000''), (''lng'', ''2.0000000''), (''formatted'', ''0'')],
        [(''lat'', ''3.0000000''), (''lng'', ''4.0000000''), (''formatted'', ''0'')],
        [(''lat'', ''3.0000000''), (''lng'', ''4.0000000''), (''formatted'', ''0'')]]"
  by (simp add: main_two main_two_requests get_on_response_def get_on_timer_def
        promise_all_react_def on_then_def on_catch_def sample_result_def
        findEarliestSunrise_def reduce_def)

end
